theory Spec2Isabelle
  imports Complex_Main
begin

section \<open>JavaScript values\<close>

text \<open>
  The store is generic in the type \<open>T\<close> of the values it is given, and at run time any
  JavaScript value can arrive. Values are modelled by the datatype below. Numbers are
  idealised as exact rationals (no rounding to binary64, no NaN, no infinities, no
  negative zero), strings are lists of 8-bit code units, an object is the list of its
  own enumerable properties in insertion order, and a function is known by its name only.
\<close>

datatype jsval =
    JUndefined
  | JNull
  | JBool bool
  | JNum rat
  | JStr string
  | JArr "jsval list"
  | JObj "(string \<times> jsval) list"
  | JFun string

text \<open>The \<open>typeof\<close> operator.\<close>

fun typeof :: "jsval \<Rightarrow> string" where
  "typeof JUndefined = ''undefined''"
| "typeof JNull = ''object''"
| "typeof (JBool b) = ''boolean''"
| "typeof (JNum n) = ''number''"
| "typeof (JStr s) = ''string''"
| "typeof (JArr xs) = ''object''"
| "typeof (JObj kvs) = ''object''"
| "typeof (JFun f) = ''function''"

text \<open>
  The built-ins of the JavaScript runtime that the store calls are taken as parameters:
  \<open>JSON.parse\<close> (\<open>None\<close> when it throws a SyntaxError), \<open>JSON.stringify\<close>
  (\<open>None\<close> when it returns \<open>undefined\<close>) and the conversion \<open>String(value)\<close>.
\<close>

record js_runtime =
  JSON_parse :: "string \<Rightarrow> jsval option"
  JSON_stringify :: "jsval \<Rightarrow> string option"
  to_String :: "jsval \<Rightarrow> string"

text \<open>
  A Zod schema is used through \<open>safeParse\<close> only: it either succeeds with the validated
  data or fails. \<open>Some d\<close> is \<open>{success: true, data: d}\<close>, \<open>None\<close> is a failure.
\<close>

type_synonym schema = "jsval \<Rightarrow> jsval option"

section \<open>The secure-storage backend\<close>

text \<open>
  expo-secure-store is an external collaborator. Its contract is a key/value map of
  strings whose calls may raise; which calls raise is a property of the platform, given
  by the predicate \<open>raises\<close>. The asynchronous calls are awaited at once by every caller,
  so each is modelled as the state transformer of its synchronous twin.
\<close>

typedecl SecureStoreOptions

datatype call =
    GetItem string
  | SetItem string string
  | DeleteItem string "SecureStoreOptions option"

datatype error = InvalidValue | BackendFailure call

record backend =
  items :: "string \<rightharpoonup> string"
  raises :: "call \<Rightarrow> bool"
  biometric :: bool

definition SecureStore_getItem :: "backend \<Rightarrow> string \<Rightarrow> error + string option" where
  "SecureStore_getItem bk key =
     (if raises bk (GetItem key) then Inl (BackendFailure (GetItem key))
      else Inr (items bk key))"

definition SecureStore_getItemAsync :: "backend \<Rightarrow> string \<Rightarrow> error + string option" where
  "SecureStore_getItemAsync bk key = SecureStore_getItem bk key"

text \<open>A value that is not a string (here: \<open>undefined\<close>) is refused by the backend.\<close>

definition SecureStore_setItem :: "backend \<Rightarrow> string \<Rightarrow> string option \<Rightarrow> error + backend" where
  "SecureStore_setItem bk key v =
     (case v of
        None \<Rightarrow> Inl InvalidValue
      | Some s \<Rightarrow>
          if raises bk (SetItem key s) then Inl (BackendFailure (SetItem key s))
          else Inr (bk\<lparr>items := (items bk)(key \<mapsto> s)\<rparr>))"

definition SecureStore_setItemAsync :: "backend \<Rightarrow> string \<Rightarrow> string option \<Rightarrow> error + backend" where
  "SecureStore_setItemAsync bk key v = SecureStore_setItem bk key v"

definition SecureStore_deleteItemAsync ::
  "backend \<Rightarrow> string \<Rightarrow> SecureStoreOptions option \<Rightarrow> error + backend" where
  "SecureStore_deleteItemAsync bk key options =
     (if raises bk (DeleteItem key options) then Inl (BackendFailure (DeleteItem key options))
      else Inr (bk\<lparr>items := (items bk)(key := None)\<rparr>))"

text \<open>
  The module exports \<open>canUseBiometricAuthentication\<close> as a function \<open>() => boolean\<close>;
  calling it asks the device.
\<close>

definition SecureStore_canUseBiometricAuthentication_call :: "backend \<Rightarrow> bool" where
  "SecureStore_canUseBiometricAuthentication_call bk = biometric bk"

definition SecureStore_canUseBiometricAuthentication :: jsval where
  "SecureStore_canUseBiometricAuthentication = JFun ''canUseBiometricAuthentication''"

section \<open>TypeSafeStore\<close>

record TypeSafeStore =
  namespace :: "string option"

text \<open>Truthiness of a \<open>string | undefined\<close>: only a non-empty string is truthy.\<close>

definition truthy_string :: "string option \<Rightarrow> bool" where
  "truthy_string s = (case s of None \<Rightarrow> False | Some t \<Rightarrow> t \<noteq> [])"

text \<open>Truthiness of a value (\<open>ToBoolean\<close>).\<close>

fun truthy :: "jsval \<Rightarrow> bool" where
  "truthy JUndefined = False"
| "truthy JNull = False"
| "truthy (JBool b) = b"
| "truthy (JNum n) = (n \<noteq> 0)"
| "truthy (JStr s) = (s \<noteq> [])"
| "truthy (JArr xs) = True"
| "truthy (JObj kvs) = True"
| "truthy (JFun f) = True"

definition new_TypeSafeStore :: "string option \<Rightarrow> TypeSafeStore" where
  "new_TypeSafeStore ns =
     (if truthy_string ns then \<lparr>namespace = ns\<rparr> else \<lparr>namespace = None\<rparr>)"

definition isValidJson :: "js_runtime \<Rightarrow> string \<Rightarrow> bool" where
  "isValidJson rt v = (case JSON_parse rt v of Some p \<Rightarrow> True | None \<Rightarrow> False)"

definition getNamespacedKey :: "TypeSafeStore \<Rightarrow> string \<Rightarrow> string" where
  "getNamespacedKey st key =
     (if truthy_string (namespace st) then the (namespace st) @ '':'' @ key else key)"

definition getNamespace :: "TypeSafeStore \<Rightarrow> string option" where
  "getNamespace st = namespace st"

text \<open>
  \<open>setNamespace\<close> is declared for a string but guards with \<open>typeof\<close>, so the argument
  is any value; \<open>typeof ns = ''string''\<close> holds for \<open>JStr\<close> alone.
\<close>

fun setNamespace :: "TypeSafeStore \<Rightarrow> jsval \<Rightarrow> bool \<times> TypeSafeStore" where
  "setNamespace st (JStr s) = (True, st\<lparr>namespace := Some s\<rparr>)"
| "setNamespace st v = (False, st)"

definition setFn :: "js_runtime \<Rightarrow> TypeSafeStore \<Rightarrow> string \<Rightarrow> jsval \<Rightarrow> string \<times> string option" where
  "setFn rt st key v =
     (let namespacedKey = getNamespacedKey st key;
          isPrimitive = (typeof v = ''string'' \<or> typeof v = ''number'' \<or> typeof v = ''boolean'')
      in (namespacedKey, if isPrimitive then Some (to_String rt v) else JSON_stringify rt v))"

definition set_value ::
  "js_runtime \<Rightarrow> TypeSafeStore \<Rightarrow> backend \<Rightarrow> string \<Rightarrow> jsval \<Rightarrow> error + bool \<times> backend" where
  "set_value rt st bk key v =
     (let toStore = setFn rt st key v
      in case SecureStore_setItem bk (fst toStore) (snd toStore) of
           Inl e \<Rightarrow> Inl e
         | Inr bk' \<Rightarrow> Inr (True, bk'))"

definition setAsync ::
  "js_runtime \<Rightarrow> TypeSafeStore \<Rightarrow> backend \<Rightarrow> string \<Rightarrow> jsval \<Rightarrow> error + bool \<times> backend" where
  "setAsync rt st bk key v =
     (let toStore = setFn rt st key v
      in case SecureStore_setItemAsync bk (fst toStore) (snd toStore) of
           Inl e \<Rightarrow> Inl e
         | Inr bk' \<Rightarrow> Inr (True, bk'))"

definition get ::
  "js_runtime \<Rightarrow> TypeSafeStore \<Rightarrow> backend \<Rightarrow> string \<Rightarrow> jsval \<Rightarrow> schema \<Rightarrow> error + jsval" where
  "get rt st bk key fallback sch =
     (let namespacedKey = getNamespacedKey st key
      in case SecureStore_getItem bk namespacedKey of
           Inl e \<Rightarrow> Inl e
         | Inr None \<Rightarrow> Inr fallback
         | Inr (Some item) \<Rightarrow>
             (let parsed = (if isValidJson rt item then the (JSON_parse rt item) else JStr item)
              in case sch parsed of
                   Some d \<Rightarrow> Inr d
                 | None \<Rightarrow> Inr fallback))"

definition getAsync ::
  "js_runtime \<Rightarrow> TypeSafeStore \<Rightarrow> backend \<Rightarrow> string \<Rightarrow> jsval \<Rightarrow> schema \<Rightarrow> error + jsval" where
  "getAsync rt st bk key fallback sch =
     (let namespacedKey = getNamespacedKey st key
      in case SecureStore_getItemAsync bk namespacedKey of
           Inl e \<Rightarrow> Inl e
         | Inr None \<Rightarrow> Inr fallback
         | Inr (Some item) \<Rightarrow>
             (let parsed = (if isValidJson rt item then the (JSON_parse rt item) else JStr item)
              in case sch parsed of
                   Some d \<Rightarrow> Inr d
                 | None \<Rightarrow> Inr fallback))"

text \<open>\<open>removeAsync\<close> catches whatever the backend raises.\<close>

definition removeAsync ::
  "TypeSafeStore \<Rightarrow> backend \<Rightarrow> string \<Rightarrow> SecureStoreOptions option \<Rightarrow> bool \<times> backend" where
  "removeAsync st bk key options =
     (let namespacedKey = getNamespacedKey st key
      in case SecureStore_deleteItemAsync bk namespacedKey options of
           Inr bk' \<Rightarrow> (True, bk')
         | Inl e \<Rightarrow> (False, bk))"

text \<open>The method returns the module's member as it is: the member is not called.\<close>

definition canUseBiometricAuthentication :: "TypeSafeStore \<Rightarrow> backend \<Rightarrow> jsval" where
  "canUseBiometricAuthentication st bk = SecureStore_canUseBiometricAuthentication"

definition exists :: "TypeSafeStore \<Rightarrow> backend \<Rightarrow> string \<Rightarrow> error + bool" where
  "exists st bk key =
     (let namespacedKey = getNamespacedKey st key
      in case SecureStore_getItem bk namespacedKey of
           Inl e \<Rightarrow> Inl e
         | Inr r \<Rightarrow> Inr (r \<noteq> None))"

definition existsAsync :: "TypeSafeStore \<Rightarrow> backend \<Rightarrow> string \<Rightarrow> error + bool" where
  "existsAsync st bk key =
     (let namespacedKey = getNamespacedKey st key
      in case SecureStore_getItemAsync bk namespacedKey of
           Inl e \<Rightarrow> Inl e
         | Inr r \<Rightarrow> Inr (r \<noteq> None))"

text \<open>The module's default store, constructed without a namespace.\<close>

definition defaultStore :: TypeSafeStore where
  "defaultStore = new_TypeSafeStore None"

section \<open>Timers\<close>

text \<open>
  \<open>setWithExpiration\<close> hands a callback to \<open>setTimeout\<close>. The event loop is modelled
  by a clock in milliseconds and the list of pending timers; a timer holds its deadline and
  the key its callback deletes. A delay below zero counts as zero (\<open>nat ttl\<close>).
\<close>

datatype timer = Timer (due: nat) (target: string)

record world =
  store :: backend
  timers :: "timer list"
  now :: nat

definition setTimeout :: "world \<Rightarrow> string \<Rightarrow> int \<Rightarrow> world" where
  "setTimeout w key ttl = w\<lparr>timers := timers w @ [Timer (now w + nat ttl) key]\<rparr>"

definition setWithExpiration ::
  "js_runtime \<Rightarrow> TypeSafeStore \<Rightarrow> world \<Rightarrow> string \<Rightarrow> jsval \<Rightarrow> int \<Rightarrow> error + world" where
  "setWithExpiration rt st w key v ttl =
     (let toStore = setFn rt st key v
      in case SecureStore_setItemAsync (store w) (fst toStore) (snd toStore) of
           Inl e \<Rightarrow> Inl e
         | Inr bk' \<Rightarrow> Inr (setTimeout (w\<lparr>store := bk'\<rparr>) (fst toStore) ttl))"

text \<open>
  The callback awaits \<open>deleteItemAsync\<close> with no options; if that raises, the rejection
  is unhandled and the store is left as it was.
\<close>

definition fire :: "backend \<Rightarrow> timer \<Rightarrow> backend" where
  "fire bk t =
     (case SecureStore_deleteItemAsync bk (target t) None of
        Inl e \<Rightarrow> bk
      | Inr bk' \<Rightarrow> bk')"

text \<open>
  Letting \<open>d\<close> milliseconds pass runs every timer that is due, earliest first, once.
\<close>

definition advance :: "nat \<Rightarrow> world \<Rightarrow> world" where
  "advance d w =
     (let t = now w + d;
          ready = sort_key due (filter (\<lambda>x. due x \<le> t) (timers w))
      in w\<lparr>store := foldl fire (store w) ready,
            timers := filter (\<lambda>x. \<not> due x \<le> t) (timers w),
            now := t\<rparr>)"

section \<open>An executable model of the runtime built-ins\<close>

text \<open>
  For evaluation on concrete inputs the three built-ins are modelled after ECMAScript:
  \<open>String\<close>, \<open>JSON.stringify\<close> (without replacer and indentation) and \<open>JSON.parse\<close>
  (without reviver). Limits of the model: numbers print as plain decimals (exact for
  magnitudes from 1e-6 up to 1e21 with at most twenty fractional digits), an escape above
  \<open>\u00ff\<close> is cut to eight bits, and integer-like property names are not reordered.
  The parser runs on fuel, the length of the text plus one; no larger amount finds a parse
  that this one misses (\<open>ecma_JSON_parse_fuel\<close> below).
\<close>

definition is_digit :: "char \<Rightarrow> bool" where
  "is_digit c = (48 \<le> (of_char c :: nat) \<and> (of_char c :: nat) \<le> 57)"

definition digit_char :: "nat \<Rightarrow> char" where
  "digit_char d = char_of (48 + d)"

definition digit_val :: "char \<Rightarrow> nat" where
  "digit_val c = of_char c - 48"

function nat_digits :: "nat \<Rightarrow> string" where
  "nat_digits n = (if n < 10 then [digit_char n] else nat_digits (n div 10) @ [digit_char (n mod 10)])"
  by pat_completeness auto
termination
  by (relation "measure id") auto

declare nat_digits.simps [simp del]

definition nat_of_digits :: "string \<Rightarrow> nat" where
  "nat_of_digits ds = foldl (\<lambda>a c. 10 * a + digit_val c) 0 ds"

fun frac_digits :: "nat \<Rightarrow> rat \<Rightarrow> string" where
  "frac_digits 0 r = []"
| "frac_digits (Suc f) r =
     (if r = 0 then []
      else digit_char (nat \<lfloor>10 * r\<rfloor>) # frac_digits f (10 * r - of_int \<lfloor>10 * r\<rfloor>))"

definition num_to_string :: "rat \<Rightarrow> string" where
  "num_to_string q =
     (let a = \<bar>q\<bar>; n = nat \<lfloor>a\<rfloor>; r = a - of_nat n
      in (if q < 0 then ''-'' else []) @ nat_digits n
         @ (if r = 0 then [] else ''.'' @ frac_digits 20 r))"

fun join_comma :: "string list \<Rightarrow> string" where
  "join_comma [] = []"
| "join_comma [x] = x"
| "join_comma (x # y # ys) = x @ '','' @ join_comma (y # ys)"

fun ecma_String :: "jsval \<Rightarrow> string" where
  "ecma_String JUndefined = ''undefined''"
| "ecma_String JNull = ''null''"
| "ecma_String (JBool b) = (if b then ''true'' else ''false'')"
| "ecma_String (JNum q) = num_to_string q"
| "ecma_String (JStr s) = s"
| "ecma_String (JArr xs) =
     join_comma (map (\<lambda>x. if x = JUndefined \<or> x = JNull then [] else ecma_String x) xs)"
| "ecma_String (JObj kvs) = ''[object Object]''"
| "ecma_String (JFun f) = ''function '' @ f @ ''() { [native code] }''"

definition hex_digit :: "nat \<Rightarrow> char" where
  "hex_digit d = (if d < 10 then char_of (48 + d) else char_of (87 + d))"

definition escape_char :: "char \<Rightarrow> string" where
  "escape_char c =
     (if c = CHR 0x22 then [CHR 0x5C, CHR 0x22]
      else if c = CHR 0x5C then [CHR 0x5C, CHR 0x5C]
      else if c = CHR 0x08 then [CHR 0x5C, CHR ''b'']
      else if c = CHR 0x0C then [CHR 0x5C, CHR ''f'']
      else if c = CHR 0x0A then [CHR 0x5C, CHR ''n'']
      else if c = CHR 0x0D then [CHR 0x5C, CHR ''r'']
      else if c = CHR 0x09 then [CHR 0x5C, CHR ''t'']
      else if (of_char c :: nat) < 32
        then [CHR 0x5C, CHR ''u'', CHR ''0'', CHR ''0'',
              hex_digit (of_char c div 16), hex_digit (of_char c mod 16)]
      else [c])"

definition json_quote :: "string \<Rightarrow> string" where
  "json_quote s = [CHR 0x22] @ concat (map escape_char s) @ [CHR 0x22]"

fun ecma_JSON_stringify :: "jsval \<Rightarrow> string option" where
  "ecma_JSON_stringify JUndefined = None"
| "ecma_JSON_stringify (JFun f) = None"
| "ecma_JSON_stringify JNull = Some ''null''"
| "ecma_JSON_stringify (JBool b) = Some (if b then ''true'' else ''false'')"
| "ecma_JSON_stringify (JNum q) = Some (num_to_string q)"
| "ecma_JSON_stringify (JStr s) = Some (json_quote s)"
| "ecma_JSON_stringify (JArr xs) =
     Some (''['' @ join_comma (map (\<lambda>x. case ecma_JSON_stringify x of
                                          None \<Rightarrow> ''null''
                                        | Some t \<Rightarrow> t) xs) @ '']'')"
| "ecma_JSON_stringify (JObj kvs) =
     Some (''{'' @ join_comma (concat (map (\<lambda>(k, x). case ecma_JSON_stringify x of
                                                    None \<Rightarrow> []
                                                  | Some t \<Rightarrow> [json_quote k @ '':'' @ t]) kvs))
           @ ''}'')"

definition is_ws :: "char \<Rightarrow> bool" where
  "is_ws c = (c = CHR 0x20 \<or> c = CHR 0x09 \<or> c = CHR 0x0A \<or> c = CHR 0x0D)"

definition skip_ws :: "string \<Rightarrow> string" where
  "skip_ws s = dropWhile is_ws s"

definition hex_val :: "char \<Rightarrow> nat option" where
  "hex_val c =
     (let n = (of_char c :: nat)
      in if 48 \<le> n \<and> n \<le> 57 then Some (n - 48)
         else if 97 \<le> n \<and> n \<le> 102 then Some (n - 87)
         else if 65 \<le> n \<and> n \<le> 70 then Some (n - 55)
         else None)"

definition hex4 :: "char \<Rightarrow> char \<Rightarrow> char \<Rightarrow> char \<Rightarrow> nat option" where
  "hex4 a b c d =
     (case (hex_val a, hex_val b, hex_val c, hex_val d) of
        (Some w, Some x, Some y, Some z) \<Rightarrow> Some (((w * 16 + x) * 16 + y) * 16 + z)
      | _ \<Rightarrow> None)"

definition unescape :: "char \<Rightarrow> char option" where
  "unescape e =
     (if e = CHR 0x22 then Some (CHR 0x22)
      else if e = CHR 0x5C then Some (CHR 0x5C)
      else if e = CHR ''/'' then Some (CHR ''/'')
      else if e = CHR ''b'' then Some (CHR 0x08)
      else if e = CHR ''f'' then Some (CHR 0x0C)
      else if e = CHR ''n'' then Some (CHR 0x0A)
      else if e = CHR ''r'' then Some (CHR 0x0D)
      else if e = CHR ''t'' then Some (CHR 0x09)
      else None)"

definition cons_fst :: "'a \<Rightarrow> ('a list \<times> 'b) option \<Rightarrow> ('a list \<times> 'b) option" where
  "cons_fst x r = map_option (\<lambda>(xs, t). (x # xs, t)) r"

fun parse_chars :: "string \<Rightarrow> (string \<times> string) option" where
  "parse_chars [] = None"
| "parse_chars (c # r) =
     (if c = CHR 0x22 then Some ([], r)
      else if c = CHR 0x5C then
        (case r of
           [] \<Rightarrow> None
         | e # r' \<Rightarrow>
             if e = CHR ''u'' then
               (case r' of
                  a # b # c' # d # r'' \<Rightarrow>
                    (case hex4 a b c' d of
                       None \<Rightarrow> None
                     | Some n \<Rightarrow> cons_fst (char_of n) (parse_chars r''))
                | _ \<Rightarrow> None)
             else
               (case unescape e of
                  None \<Rightarrow> None
                | Some x \<Rightarrow> cons_fst x (parse_chars r')))
      else if (of_char c :: nat) < 32 then None
      else cons_fst c (parse_chars r))"

definition parse_sign :: "string \<Rightarrow> bool \<times> string" where
  "parse_sign s = (case s of [] \<Rightarrow> (False, s) | c # r \<Rightarrow> if c = CHR ''-'' then (True, r) else (False, s))"

definition parse_int_part :: "string \<Rightarrow> (string \<times> string) option" where
  "parse_int_part s =
     (case s of
        [] \<Rightarrow> None
      | c # r \<Rightarrow>
          if c = CHR ''0'' then Some (''0'', r)
          else if is_digit c then Some (takeWhile is_digit s, dropWhile is_digit s)
          else None)"

definition parse_frac_part :: "string \<Rightarrow> (string \<times> string) option" where
  "parse_frac_part s =
     (case s of
        [] \<Rightarrow> Some ([], s)
      | c # r \<Rightarrow>
          if c = CHR ''.'' then
            (if takeWhile is_digit r = [] then None
             else Some (takeWhile is_digit r, dropWhile is_digit r))
          else Some ([], s))"

definition parse_exp_part :: "string \<Rightarrow> (int \<times> string) option" where
  "parse_exp_part s =
     (case s of
        [] \<Rightarrow> Some (0, s)
      | c # r \<Rightarrow>
          if c = CHR ''e'' \<or> c = CHR ''E'' then
            (let (neg, r') = (case r of
                                [] \<Rightarrow> (False, r)
                              | x # y \<Rightarrow> if x = CHR ''-'' then (True, y)
                                         else if x = CHR ''+'' then (False, y)
                                         else (False, r))
             in if takeWhile is_digit r' = [] then None
                else Some ((if neg then - 1 else 1) * int (nat_of_digits (takeWhile is_digit r')),
                           dropWhile is_digit r'))
          else Some (0, s))"

definition parse_number :: "string \<Rightarrow> (rat \<times> string) option" where
  "parse_number s =
     (let (neg, s1) = parse_sign s
      in case parse_int_part s1 of
           None \<Rightarrow> None
         | Some (ds, s2) \<Rightarrow>
             (case parse_frac_part s2 of
                None \<Rightarrow> None
              | Some (fs, s3) \<Rightarrow>
                  (case parse_exp_part s3 of
                     None \<Rightarrow> None
                   | Some (e, s4) \<Rightarrow>
                       (let m = (of_nat (nat_of_digits (ds @ fs)) :: rat);
                            x = e - int (length fs);
                            a = (if 0 \<le> x then m * 10 ^ nat x else m / 10 ^ nat (- x))
                        in Some (if neg then - a else a, s4)))))"

fun put_property :: "string \<Rightarrow> jsval \<Rightarrow> (string \<times> jsval) list \<Rightarrow> (string \<times> jsval) list" where
  "put_property k v [] = [(k, v)]"
| "put_property k v ((a, b) # ps) =
     (if a = k then (k, v) # ps else (a, b) # put_property k v ps)"

definition starts_with :: "string \<Rightarrow> string \<Rightarrow> bool" where
  "starts_with p s = (take (length p) s = p)"

fun parse_value :: "nat \<Rightarrow> string \<Rightarrow> (jsval \<times> string) option"
  and parse_elements :: "nat \<Rightarrow> string \<Rightarrow> (jsval list \<times> string) option"
  and parse_members :: "nat \<Rightarrow> (string \<times> jsval) list \<Rightarrow> string \<Rightarrow> ((string \<times> jsval) list \<times> string) option"
where
  "parse_value 0 s = None"
| "parse_value (Suc n) s =
     (case skip_ws s of
        [] \<Rightarrow> None
      | c # r \<Rightarrow>
          if c = CHR ''['' then
            (case skip_ws r of
               [] \<Rightarrow> None
             | c' # r' \<Rightarrow>
                 if c' = CHR '']'' then Some (JArr [], r')
                 else map_option (\<lambda>(xs, t). (JArr xs, t)) (parse_elements n r))
          else if c = CHR ''{'' then
            (case skip_ws r of
               [] \<Rightarrow> None
             | c' # r' \<Rightarrow>
                 if c' = CHR ''}'' then Some (JObj [], r')
                 else map_option (\<lambda>(kvs, t). (JObj kvs, t)) (parse_members n [] r))
          else if c = CHR 0x22 then map_option (\<lambda>(x, t). (JStr x, t)) (parse_chars r)
          else if starts_with ''true'' (c # r) then Some (JBool True, drop 4 (c # r))
          else if starts_with ''false'' (c # r) then Some (JBool False, drop 5 (c # r))
          else if starts_with ''null'' (c # r) then Some (JNull, drop 4 (c # r))
          else map_option (\<lambda>(q, t). (JNum q, t)) (parse_number (c # r)))"
| "parse_elements 0 s = None"
| "parse_elements (Suc n) s =
     (case parse_value n s of
        None \<Rightarrow> None
      | Some (v, t) \<Rightarrow>
          (case skip_ws t of
             [] \<Rightarrow> None
           | c # r \<Rightarrow>
               if c = CHR '','' then cons_fst v (parse_elements n r)
               else if c = CHR '']'' then Some ([v], r)
               else None))"
| "parse_members 0 acc s = None"
| "parse_members (Suc n) acc s =
     (case skip_ws s of
        [] \<Rightarrow> None
      | q # r \<Rightarrow>
          if q \<noteq> CHR 0x22 then None
          else
            (case parse_chars r of
               None \<Rightarrow> None
             | Some (k, t) \<Rightarrow>
                 (case skip_ws t of
                    [] \<Rightarrow> None
                  | c # u \<Rightarrow>
                      if c \<noteq> CHR '':'' then None
                      else
                        (case parse_value n u of
                           None \<Rightarrow> None
                         | Some (v, w) \<Rightarrow>
                             (case skip_ws w of
                                [] \<Rightarrow> None
                              | d # x \<Rightarrow>
                                  if d = CHR '','' then parse_members n (put_property k v acc) x
                                  else if d = CHR ''}'' then Some (put_property k v acc, x)
                                  else None)))))"

definition ecma_JSON_parse :: "string \<Rightarrow> jsval option" where
  "ecma_JSON_parse s =
     (case parse_value (Suc (length s)) s of
        None \<Rightarrow> None
      | Some (v, r) \<Rightarrow> if skip_ws r = [] then Some v else None)"

definition ecma :: js_runtime where
  "ecma = \<lparr>JSON_parse = ecma_JSON_parse, JSON_stringify = ecma_JSON_stringify,
           to_String = ecma_String\<rparr>"

section \<open>Some schemas and an empty backend\<close>

text \<open>
  \<open>z.any()\<close>, \<open>z.string()\<close>, \<open>z.number()\<close> and \<open>z.boolean()\<close> as \<open>safeParse\<close> sees
  them, and a backend that holds nothing and never raises.
\<close>

definition z_any :: schema where
  "z_any v = Some v"

definition z_string :: schema where
  "z_string v = (case v of JStr s \<Rightarrow> Some v | _ \<Rightarrow> None)"

definition z_number :: schema where
  "z_number v = (case v of JNum q \<Rightarrow> Some v | _ \<Rightarrow> None)"

definition z_boolean :: schema where
  "z_boolean v = (case v of JBool b \<Rightarrow> Some v | _ \<Rightarrow> None)"

definition empty_backend :: backend where
  "empty_backend = \<lparr>items = Map.empty, raises = (\<lambda>c. False), biometric = False\<rparr>"

section \<open>Values that JSON represents\<close>

text \<open>
  The values that pass through \<open>JSON.stringify\<close> and \<open>JSON.parse\<close> unchanged in the model:
  \<open>null\<close>, booleans, integers, strings, arrays of such values, and objects with distinct
  property names holding such values. \<open>json_text\<close> is the text \<open>JSON.stringify\<close> gives an
  array element (\<open>null\<close> for what it cannot print), \<open>member_text\<close> the text of one
  property, and \<open>need\<close> a bound on the fuel the parser spends on a value's text.
  \<open>value_end\<close> holds of what may follow a value's text inside a JSON text, and
  \<open>value_start\<close> of a character that opens a value.
\<close>

definition value_end :: "string \<Rightarrow> bool" where
  "value_end rest =
     (case rest of [] \<Rightarrow> True | c # r \<Rightarrow> c = CHR '','' \<or> c = CHR '']'' \<or> c = CHR ''}'')"

fun json_value :: "jsval \<Rightarrow> bool" where
  "json_value JUndefined = False"
| "json_value (JFun f) = False"
| "json_value JNull = True"
| "json_value (JBool b) = True"
| "json_value (JNum q) = (q = of_int \<lfloor>q\<rfloor>)"
| "json_value (JStr s) = True"
| "json_value (JArr xs) = list_all json_value xs"
| "json_value (JObj kvs) = (distinct (map fst kvs) \<and> list_all (\<lambda>kv. json_value (snd kv)) kvs)"

fun need :: "jsval \<Rightarrow> nat" where
  "need (JArr xs) = Suc (sum_list (map (\<lambda>x. Suc (need x)) xs))"
| "need (JObj kvs) = Suc (sum_list (map (\<lambda>kv. Suc (need (snd kv))) kvs))"
| "need v = 1"

definition json_text :: "jsval \<Rightarrow> string" where
  "json_text v = (case ecma_JSON_stringify v of None \<Rightarrow> ''null'' | Some t \<Rightarrow> t)"

definition member_text :: "string \<times> jsval \<Rightarrow> string" where
  "member_text kv = json_quote (fst kv) @ '':'' @ json_text (snd kv)"

definition value_start :: "char \<Rightarrow> bool" where
  "value_start c = (\<not> is_ws c \<and> c \<noteq> CHR '']'' \<and> c \<noteq> CHR ''}'')"

section \<open>Basic facts\<close>

lemma typeof_string_iff: "typeof v = ''string'' \<longleftrightarrow> (\<exists>s. v = JStr s)"
  by (cases v) simp_all

lemma getNamespacedKey_None: "getNamespacedKey \<lparr>namespace = None\<rparr> key = key"
  by (simp add: getNamespacedKey_def truthy_string_def)

lemma getNamespacedKey_Some:
  "ns \<noteq> [] \<Longrightarrow> getNamespacedKey \<lparr>namespace = Some ns\<rparr> key = ns @ '':'' @ key"
  by (simp add: getNamespacedKey_def truthy_string_def)

lemma new_TypeSafeStore_Some:
  "ns \<noteq> [] \<Longrightarrow> new_TypeSafeStore (Some ns) = \<lparr>namespace = Some ns\<rparr>"
  by (simp add: new_TypeSafeStore_def truthy_string_def)

lemma existsAsync_items:
  "existsAsync st bk key =
     (if raises bk (GetItem (getNamespacedKey st key))
      then Inl (BackendFailure (GetItem (getNamespacedKey st key)))
      else Inr (items bk (getNamespacedKey st key) \<noteq> None))"
  by (simp add: existsAsync_def SecureStore_getItemAsync_def SecureStore_getItem_def)

lemma set_value_items:
  "set_value rt st bk key v = Inr (ok, bk') \<Longrightarrow>
     \<exists>s. snd (setFn rt st key v) = Some s
       \<and> bk' = bk\<lparr>items := (items bk)(getNamespacedKey st key \<mapsto> s)\<rparr>"
  by (auto simp: set_value_def SecureStore_setItem_def setFn_def Let_def
      split: option.splits if_splits)

section \<open>The parser's fuel\<close>

lemma length_skip_ws: "length (skip_ws s) \<le> length s"
  by (simp add: skip_ws_def length_dropWhile_le)

lemma skip_ws_Cons_length: "skip_ws s = c # r \<Longrightarrow> length r < length s"
  using length_skip_ws [of s] by simp

lemma cons_fst_Some: "cons_fst x r = Some (ys, t) \<longleftrightarrow> (\<exists>xs. r = Some (xs, t) \<and> ys = x # xs)"
  by (cases r) (auto simp: cons_fst_def)

lemma parse_chars_shorter: "parse_chars s = Some (x, t) \<Longrightarrow> length t < length s"
proof (induction "length s" arbitrary: s x t rule: less_induct)
  case less
  from less(2) obtain c r where s: "s = c # r"
    by (cases s) auto
  have "t = r \<or> (\<exists>r' xs. length r' \<le> length r \<and> parse_chars r' = Some (xs, t))"
    using less(2)
    by (fastforce simp: s cons_fst_Some split: if_splits list.splits option.splits)
  then show ?case
  proof (elim disjE exE conjE)
    assume "t = r"
    then show ?thesis by (simp add: s)
  next
    fix r' xs
    assume "length r' \<le> length r" "parse_chars r' = Some (xs, t)"
    with less(1) [of r' xs t] show ?thesis
      by (simp add: s)
  qed
qed

lemma parse_sign_length: "length (snd (parse_sign s)) \<le> length s"
  by (auto simp: parse_sign_def split: list.splits)

lemma parse_int_part_shorter: "parse_int_part s = Some (ds, t) \<Longrightarrow> length t < length s"
  by (auto simp: parse_int_part_def less_Suc_eq_le length_dropWhile_le split: list.splits if_splits)

lemma parse_frac_part_length: "parse_frac_part s = Some (fs, t) \<Longrightarrow> length t \<le> length s"
  by (auto simp: parse_frac_part_def le_Suc_eq length_dropWhile_le
      intro: le_trans [OF length_dropWhile_le] split: list.splits if_splits)

lemma parse_exp_part_length: "parse_exp_part s = Some (e, t) \<Longrightarrow> length t \<le> length s"
  by (auto simp: parse_exp_part_def Let_def
      intro: le_trans [OF length_dropWhile_le] le_SucI
      split: list.splits if_splits prod.splits)

lemma parse_number_shorter: "parse_number s = Some (q, t) \<Longrightarrow> length t < length s"
proof -
  assume a: "parse_number s = Some (q, t)"
  obtain neg s1 where s: "parse_sign s = (neg, s1)" by (cases "parse_sign s")
  with a obtain ds s2 fs s3 e where
    "parse_int_part s1 = Some (ds, s2)" "parse_frac_part s2 = Some (fs, s3)"
    "parse_exp_part s3 = Some (e, t)"
    by (auto simp: parse_number_def Let_def split: option.splits)
  then have "length s2 < length s1" "length s3 \<le> length s2" "length t \<le> length s3"
    by (auto dest: parse_int_part_shorter parse_frac_part_length parse_exp_part_length)
  moreover have "length s1 \<le> length s"
    using parse_sign_length [of s] s by simp
  ultimately show ?thesis by simp
qed

lemma starts_with_length: "starts_with p s \<Longrightarrow> length p \<le> length s"
  by (metis starts_with_def length_take min.cobounded1 min_def nat_le_linear)

lemma parse_value_step:
  assumes E: "\<And>s xs t. parse_elements m s = Some (xs, t) \<Longrightarrow>
      length t < length s \<and> (\<forall>n. length s - length t \<le> n \<longrightarrow> parse_elements n s = Some (xs, t))"
    and M: "\<And>acc s kvs t. parse_members m acc s = Some (kvs, t) \<Longrightarrow>
      length t < length s \<and> (\<forall>n. length s - length t \<le> n \<longrightarrow> parse_members n acc s = Some (kvs, t))"
    and P: "parse_value (Suc m) s = Some (v, t)"
  shows "length t < length s \<and> (\<forall>n. length s - length t \<le> n \<longrightarrow> parse_value n s = Some (v, t))"
proof -
  from P obtain c r where cr: "skip_ws s = c # r"
    by (cases "skip_ws s") auto
  have lr: "length r < length s"
    using skip_ws_Cons_length [OF cr] .
  have scalar: "length t < length s \<and> (\<forall>n. length s - length t \<le> n \<longrightarrow> parse_value n s = Some (v, t))"
    if "length t < length s" and "\<And>k. parse_value (Suc k) s = Some (v, t)" for t
  proof (intro conjI allI impI)
    fix n
    assume "length s - length t \<le> n"
    with that(1) obtain k where "n = Suc k"
      by (cases n) auto
    with that(2) show "parse_value n s = Some (v, t)" by simp
  qed (rule that(1))
  consider (arr) "c = CHR ''[''" | (obj) "c \<noteq> CHR ''[''" "c = CHR ''{''"
    | (str) "c \<noteq> CHR ''[''" "c \<noteq> CHR ''{''" "c = CHR 0x22"
    | (other) "c \<noteq> CHR ''[''" "c \<noteq> CHR ''{''" "c \<noteq> CHR 0x22"
    by blast
  then show ?thesis
  proof cases
    case arr
    with P cr obtain c' r' where cr': "skip_ws r = c' # r'"
      by (cases "skip_ws r") auto
    have lr': "length r' < length r"
      using skip_ws_Cons_length [OF cr'] .
    show ?thesis
    proof (cases "c' = CHR '']''")
      case True
      with P cr arr cr' have "v = JArr []" "t = r'" by auto
      with lr lr' cr arr cr' True show ?thesis
        by (intro scalar) auto
    next
      case False
      with P cr arr cr' obtain xs where xs: "parse_elements m r = Some (xs, t)" and v: "v = JArr xs"
        by auto
      from E [OF xs] have lt: "length t < length r"
        and en: "\<And>n. length r - length t \<le> n \<Longrightarrow> parse_elements n r = Some (xs, t)"
        by auto
      show ?thesis
      proof (intro conjI allI impI)
        show "length t < length s" using lt lr by simp
      next
        fix n
        assume n: "length s - length t \<le> n"
        with lt lr obtain k where k: "n = Suc k" "length r - length t \<le> k"
          by (cases n) auto
        with en [of k] cr arr cr' False v show "parse_value n s = Some (v, t)"
          by simp
      qed
    qed
  next
    case obj
    with P cr obtain c' r' where cr': "skip_ws r = c' # r'"
      by (cases "skip_ws r") auto
    have lr': "length r' < length r"
      using skip_ws_Cons_length [OF cr'] .
    show ?thesis
    proof (cases "c' = CHR ''}''")
      case True
      with P cr obj cr' have "v = JObj []" "t = r'" by auto
      with lr lr' cr obj cr' True show ?thesis
        by (intro scalar) auto
    next
      case False
      with P cr obj cr' obtain kvs where xs: "parse_members m [] r = Some (kvs, t)"
        and v: "v = JObj kvs"
        by auto
      from M [OF xs] have lt: "length t < length r"
        and en: "\<And>n. length r - length t \<le> n \<Longrightarrow> parse_members n [] r = Some (kvs, t)"
        by auto
      show ?thesis
      proof (intro conjI allI impI)
        show "length t < length s" using lt lr by simp
      next
        fix n
        assume n: "length s - length t \<le> n"
        with lt lr obtain k where k: "n = Suc k" "length r - length t \<le> k"
          by (cases n) auto
        with en [of k] cr obj cr' False v show "parse_value n s = Some (v, t)"
          by simp
      qed
    qed
  next
    case str
    with P cr obtain x where x: "parse_chars r = Some (x, t)" and v: "v = JStr x"
      by auto
    have "length t < length r"
      using parse_chars_shorter [OF x] .
    with lr cr str x v show ?thesis
      by (intro scalar) auto
  next
    case other
    have l: "length (c # r) \<le> length s"
      using length_skip_ws [of s] cr by simp
    have "length t < length (c # r)"
      using P cr other
      by (auto dest: parse_number_shorter starts_with_length split: if_splits)
    moreover have "parse_value (Suc k) s = parse_value (Suc m) s" for k
      using cr other by simp
    ultimately show ?thesis
      using l P by (intro scalar) auto
  qed
qed

lemma parse_elements_step:
  assumes V: "\<And>s v t. parse_value m s = Some (v, t) \<Longrightarrow>
      length t < length s \<and> (\<forall>n. length s - length t \<le> n \<longrightarrow> parse_value n s = Some (v, t))"
    and E: "\<And>s xs t. parse_elements m s = Some (xs, t) \<Longrightarrow>
      length t < length s \<and> (\<forall>n. length s - length t \<le> n \<longrightarrow> parse_elements n s = Some (xs, t))"
    and P: "parse_elements (Suc m) s = Some (xs, t)"
  shows "length t < length s \<and> (\<forall>n. length s - length t \<le> n \<longrightarrow> parse_elements n s = Some (xs, t))"
proof -
  from P obtain v t1 where v: "parse_value m s = Some (v, t1)"
    by (cases "parse_value m s") auto
  from V [OF v] have l1: "length t1 < length s"
    and vn: "\<And>n. length s - length t1 \<le> n \<Longrightarrow> parse_value n s = Some (v, t1)"
    by auto
  from P v obtain c r where cr: "skip_ws t1 = c # r"
    by (cases "skip_ws t1") auto
  have lr: "length r < length t1"
    using skip_ws_Cons_length [OF cr] .
  show ?thesis
  proof (cases "c = CHR '',''")
    case True
    with P v cr obtain ys where ys: "parse_elements m r = Some (ys, t)" and xs: "xs = v # ys"
      by (auto simp: cons_fst_Some)
    from E [OF ys] have lt: "length t < length r"
      and en: "\<And>n. length r - length t \<le> n \<Longrightarrow> parse_elements n r = Some (ys, t)"
      by auto
    show ?thesis
    proof (intro conjI allI impI)
      show "length t < length s" using lt lr l1 by simp
    next
      fix n
      assume "length s - length t \<le> n"
      with lt lr l1 obtain k where k: "n = Suc k" "length s - length t1 \<le> k"
        "length r - length t \<le> k"
        by (cases n) auto
      with vn [of k] en [of k] cr True xs show "parse_elements n s = Some (xs, t)"
        by (simp add: cons_fst_def)
    qed
  next
    case False
    with P v cr have c: "c = CHR '']''" and t: "t = r" and xs: "xs = [v]"
      by (auto split: if_splits)
    show ?thesis
    proof (intro conjI allI impI)
      show "length t < length s" using t lr l1 by simp
    next
      fix n
      assume "length s - length t \<le> n"
      with t lr l1 obtain k where k: "n = Suc k" "length s - length t1 \<le> k"
        by (cases n) auto
      with vn [of k] cr c t xs show "parse_elements n s = Some (xs, t)"
        by simp
    qed
  qed
qed

lemma parse_members_step:
  assumes V: "\<And>s v t. parse_value m s = Some (v, t) \<Longrightarrow>
      length t < length s \<and> (\<forall>n. length s - length t \<le> n \<longrightarrow> parse_value n s = Some (v, t))"
    and M: "\<And>acc s kvs t. parse_members m acc s = Some (kvs, t) \<Longrightarrow>
      length t < length s \<and> (\<forall>n. length s - length t \<le> n \<longrightarrow> parse_members n acc s = Some (kvs, t))"
    and P: "parse_members (Suc m) acc s = Some (kvs, t)"
  shows "length t < length s \<and> (\<forall>n. length s - length t \<le> n \<longrightarrow> parse_members n acc s = Some (kvs, t))"
proof -
  from P obtain q r where qr: "skip_ws s = q # r"
    by (cases "skip_ws s") auto
  with P have q: "q = CHR 0x22"
    by (auto split: if_splits)
  from P qr q obtain k t1 where k: "parse_chars r = Some (k, t1)"
    by (cases "parse_chars r") auto
  from P qr q k obtain c u where cu: "skip_ws t1 = c # u"
    by (cases "skip_ws t1") auto
  with P qr q k have c: "c = CHR '':''"
    by (auto split: if_splits)
  from P qr q k cu c obtain v w where v: "parse_value m u = Some (v, w)"
    by (cases "parse_value m u") auto
  from P qr q k cu c v obtain d x where dx: "skip_ws w = d # x"
    by (cases "skip_ws w") auto
  from V [OF v] have lw: "length w < length u"
    and vn: "\<And>n. length u - length w \<le> n \<Longrightarrow> parse_value n u = Some (v, w)"
    by auto
  have l: "length r < length s" "length t1 < length r" "length u < length t1" "length x < length w"
    using skip_ws_Cons_length [OF qr] parse_chars_shorter [OF k] skip_ws_Cons_length [OF cu]
      skip_ws_Cons_length [OF dx] by auto
  show ?thesis
  proof (cases "d = CHR '',''")
    case True
    with P qr q k cu c v dx have r: "parse_members m (put_property k v acc) x = Some (kvs, t)"
      by simp
    from M [OF r] have lt: "length t < length x"
      and mn: "\<And>n. length x - length t \<le> n \<Longrightarrow>
                 parse_members n (put_property k v acc) x = Some (kvs, t)"
      by auto
    show ?thesis
    proof (intro conjI allI impI)
      show "length t < length s" using lt l lw by simp
    next
      fix n
      assume "length s - length t \<le> n"
      with lt l lw obtain j where j: "n = Suc j" "length u - length w \<le> j"
        "length x - length t \<le> j"
        by (cases n) auto
      with vn [of j] mn [of j] qr q k cu c dx True
      show "parse_members n acc s = Some (kvs, t)"
        by simp
    qed
  next
    case False
    with P qr q k cu c v dx have d: "d = CHR ''}''" and t: "t = x"
      and kvs: "kvs = put_property k v acc"
      by (auto split: if_splits)
    show ?thesis
    proof (intro conjI allI impI)
      show "length t < length s" using t l lw by simp
    next
      fix n
      assume "length s - length t \<le> n"
      with t l lw obtain j where j: "n = Suc j" "length u - length w \<le> j"
        by (cases n) auto
      with vn [of j] qr q k cu c dx d t kvs
      show "parse_members n acc s = Some (kvs, t)"
        by simp
    qed
  qed
qed

lemma fuel_adequate:
  "(\<forall>s v t. parse_value m s = Some (v, t) \<longrightarrow>
      length t < length s \<and> (\<forall>n. length s - length t \<le> n \<longrightarrow> parse_value n s = Some (v, t)))
   \<and> (\<forall>s xs t. parse_elements m s = Some (xs, t) \<longrightarrow>
      length t < length s \<and> (\<forall>n. length s - length t \<le> n \<longrightarrow> parse_elements n s = Some (xs, t)))
   \<and> (\<forall>acc s kvs t. parse_members m acc s = Some (kvs, t) \<longrightarrow>
      length t < length s \<and> (\<forall>n. length s - length t \<le> n \<longrightarrow> parse_members n acc s = Some (kvs, t)))"
proof (induction m)
  case 0
  show ?case by simp
next
  case (Suc m)
  then have V: "\<And>s v t. parse_value m s = Some (v, t) \<Longrightarrow>
      length t < length s \<and> (\<forall>n. length s - length t \<le> n \<longrightarrow> parse_value n s = Some (v, t))"
    and E: "\<And>s xs t. parse_elements m s = Some (xs, t) \<Longrightarrow>
      length t < length s \<and> (\<forall>n. length s - length t \<le> n \<longrightarrow> parse_elements n s = Some (xs, t))"
    and M: "\<And>acc s kvs t. parse_members m acc s = Some (kvs, t) \<Longrightarrow>
      length t < length s \<and> (\<forall>n. length s - length t \<le> n \<longrightarrow> parse_members n acc s = Some (kvs, t))"
    by blast+
  show ?case
    using parse_value_step [OF E M] parse_elements_step [OF V E] parse_members_step [OF V M]
    by blast
qed

text \<open>No amount of fuel finds a parse that the fuel of \<open>ecma_JSON_parse\<close> misses.\<close>

theorem ecma_JSON_parse_fuel:
  "ecma_JSON_parse s = Some v \<longleftrightarrow> (\<exists>m t. parse_value m s = Some (v, t) \<and> skip_ws t = [])"
proof
  assume "ecma_JSON_parse s = Some v"
  then obtain t where "parse_value (Suc (length s)) s = Some (v, t)" "skip_ws t = []"
    by (auto simp: ecma_JSON_parse_def simp del: parse_value.simps
        split: option.splits if_splits)
  then show "\<exists>m t. parse_value m s = Some (v, t) \<and> skip_ws t = []"
    by blast
next
  assume "\<exists>m t. parse_value m s = Some (v, t) \<and> skip_ws t = []"
  then obtain m t where p: "parse_value m s = Some (v, t)" and t: "skip_ws t = []"
    by blast
  from fuel_adequate [of m] p have "parse_value (Suc (length s)) s = Some (v, t)"
    by (meson diff_le_self le_SucI)
  with t show "ecma_JSON_parse s = Some v"
    by (simp add: ecma_JSON_parse_def)
qed

section \<open>The JSON round trip of the model runtime\<close>

lemma of_char_digit_char: "d < 10 \<Longrightarrow> (of_char (digit_char d) :: nat) = 48 + d"
  by (simp add: digit_char_def)

lemma digit_char_0: "digit_char 0 = CHR ''0''"
  by code_simp

lemma is_digit_digit_char: "d < 10 \<Longrightarrow> is_digit (digit_char d)"
  by (simp add: is_digit_def of_char_digit_char)

lemma digit_val_digit_char: "d < 10 \<Longrightarrow> digit_val (digit_char d) = d"
  by (simp add: digit_val_def of_char_digit_char)

lemma is_digit_not_special:
  assumes "is_digit c"
  shows "c \<noteq> CHR ''[''" "c \<noteq> CHR ''{''" "c \<noteq> CHR 0x22" "c \<noteq> CHR ''t''" "c \<noteq> CHR ''f''"
    "c \<noteq> CHR ''n''" "c \<noteq> CHR ''-''" "\<not> is_ws c" "c \<noteq> CHR '']''" "c \<noteq> CHR ''}''" "c \<noteq> CHR '',''"
    "c \<noteq> CHR ''.''" "c \<noteq> CHR ''e''" "c \<noteq> CHR ''E''"
  using assms by (auto simp: is_digit_def is_ws_def)

lemma nat_digits_all: "list_all is_digit (nat_digits n)"
proof (induction n rule: nat_digits.induct)
  case (1 n)
  show ?case
  proof (cases "n < 10")
    case True
    then show ?thesis by (simp add: nat_digits.simps is_digit_digit_char)
  next
    case False
    with 1 show ?thesis
      by (subst nat_digits.simps) (simp add: is_digit_digit_char)
  qed
qed

lemma nat_digits_nonempty: "nat_digits n \<noteq> []"
  by (subst nat_digits.simps) simp

lemma nat_of_digits_snoc: "nat_of_digits (ds @ [c]) = 10 * nat_of_digits ds + digit_val c"
  by (simp add: nat_of_digits_def)

lemma nat_of_digits_nat_digits: "nat_of_digits (nat_digits n) = n"
proof (induction n rule: nat_digits.induct)
  case (1 n)
  show ?case
  proof (cases "n < 10")
    case True
    then show ?thesis
      by (simp add: nat_digits.simps nat_of_digits_def digit_val_digit_char)
  next
    case False
    with 1 have "nat_of_digits (nat_digits (n div 10)) = n div 10" by simp
    with False show ?thesis
      by (subst nat_digits.simps) (simp add: nat_of_digits_snoc digit_val_digit_char)
  qed
qed

lemma hd_nat_digits_zero: "hd (nat_digits n) = CHR ''0'' \<Longrightarrow> n = 0"
proof (induction n rule: nat_digits.induct)
  case (1 n)
  show ?case
  proof (cases "n < 10")
    case True
    with 1(2) have "(of_char (digit_char n) :: nat) = of_char (CHR ''0'')"
      by (simp add: nat_digits.simps)
    with True show ?thesis by (simp add: of_char_digit_char)
  next
    case False
    with 1(2) have "hd (nat_digits (n div 10)) = CHR ''0''"
      by (subst (asm) nat_digits.simps) (simp add: nat_digits_nonempty)
    with 1(1) False have "n div 10 = 0" by simp
    with False show ?thesis by simp
  qed
qed

lemma takeWhile_digits:
  assumes "list_all is_digit ds" and "case rest of [] \<Rightarrow> True | c # r \<Rightarrow> \<not> is_digit c"
  shows "takeWhile is_digit (ds @ rest) = ds" and "dropWhile is_digit (ds @ rest) = rest"
  using assms by (induction ds) (auto split: list.splits)

lemma value_end_not_digit: "value_end rest \<Longrightarrow> case rest of [] \<Rightarrow> True | c # r \<Rightarrow> \<not> is_digit c"
  by (auto simp: value_end_def is_digit_def split: list.splits)

lemma parse_frac_part_end: "value_end rest \<Longrightarrow> parse_frac_part rest = Some ([], rest)"
  by (auto simp: value_end_def parse_frac_part_def split: list.splits)

lemma parse_exp_part_end: "value_end rest \<Longrightarrow> parse_exp_part rest = Some (0, rest)"
  by (auto simp: value_end_def parse_exp_part_def split: list.splits)

lemma parse_int_part_nat_digits:
  assumes "value_end rest"
  shows "parse_int_part (nat_digits n @ rest) = Some (nat_digits n, rest)"
proof (cases "n = 0")
  case True
  then show ?thesis
    by (simp add: nat_digits.simps parse_int_part_def digit_char_0)
next
  case False
  obtain c cs where cs: "nat_digits n = c # cs"
    using nat_digits_nonempty [of n] by (cases "nat_digits n") auto
  have "c \<noteq> CHR ''0''"
    using hd_nat_digits_zero [of n] False cs by auto
  moreover have "is_digit c"
    using nat_digits_all [of n] cs by simp
  moreover have "takeWhile is_digit (nat_digits n @ rest) = nat_digits n"
    "dropWhile is_digit (nat_digits n @ rest) = rest"
    using takeWhile_digits [OF nat_digits_all value_end_not_digit [OF assms]] by auto
  ultimately show ?thesis
    using cs by (simp add: parse_int_part_def)
qed

lemma parse_number_nat:
  assumes "value_end rest"
  shows "parse_number (nat_digits n @ rest) = Some (of_nat n, rest)"
proof -
  obtain c cs where cs: "nat_digits n = c # cs"
    using nat_digits_nonempty [of n] by (cases "nat_digits n") auto
  have "is_digit c"
    using nat_digits_all [of n] cs by simp
  then have "c \<noteq> CHR ''-''"
    by (rule is_digit_not_special)
  then have "parse_sign (nat_digits n @ rest) = (False, nat_digits n @ rest)"
    using cs by (simp add: parse_sign_def)
  then show ?thesis
    using assms
    by (simp add: parse_number_def parse_int_part_nat_digits parse_frac_part_end
        parse_exp_part_end nat_of_digits_nat_digits)
qed

lemma parse_number_neg:
  assumes "value_end rest"
  shows "parse_number (''-'' @ nat_digits n @ rest) = Some (- of_nat n, rest)"
  using assms
  by (simp add: parse_number_def parse_sign_def parse_int_part_nat_digits parse_frac_part_end
      parse_exp_part_end nat_of_digits_nat_digits)

lemma num_to_string_of_int:
  "num_to_string (of_int n) = (if n < 0 then ''-'' else []) @ nat_digits (nat \<bar>n\<bar>)"
  by (simp add: num_to_string_def Let_def flip: of_int_abs)

lemma parse_number_num_to_string:
  assumes "value_end rest"
  shows "parse_number (num_to_string (of_int n) @ rest) = Some (of_int n, rest)"
proof (cases "n < 0")
  case True
  then have "parse_number (num_to_string (of_int n) @ rest)
      = parse_number (''-'' @ nat_digits (nat \<bar>n\<bar>) @ rest)"
    by (simp add: num_to_string_of_int)
  also have "\<dots> = Some (- of_nat (nat \<bar>n\<bar>), rest)"
    by (rule parse_number_neg [OF assms])
  also have "\<dots> = Some (of_int n, rest)"
    using True by simp
  finally show ?thesis .
next
  case False
  then have "parse_number (num_to_string (of_int n) @ rest)
      = parse_number (nat_digits (nat \<bar>n\<bar>) @ rest)"
    by (simp add: num_to_string_of_int)
  also have "\<dots> = Some (of_nat (nat \<bar>n\<bar>), rest)"
    by (rule parse_number_nat [OF assms])
  also have "\<dots> = Some (of_int n, rest)"
    using False by simp
  finally show ?thesis .
qed

lemma hex_val_hex_digit: "d < 16 \<Longrightarrow> hex_val (hex_digit d) = Some d"
  by (auto simp: hex_val_def hex_digit_def Let_def)

lemma hex_val_0: "hex_val (CHR ''0'') = Some 0"
  by (simp add: hex_val_def)

lemma hex4_escape:
  "hex4 (CHR ''0'') (CHR ''0'') (hex_digit (of_char c div 16)) (hex_digit (of_char c mod 16))
     = Some (of_char c)"
proof -
  have "(of_char c :: nat) < 256"
    by (rule nat_of_char_less_256)
  then have "(of_char c :: nat) div 16 < 16"
    by arith
  then show ?thesis
    by (simp add: hex4_def hex_val_0 hex_val_hex_digit)
qed

lemma parse_chars_escape: "parse_chars (escape_char c @ t) = cons_fst c (parse_chars t)"
proof -
  consider "c = CHR 0x22" | "c = CHR 0x5C" | "c = CHR 0x08" | "c = CHR 0x0C" | "c = CHR 0x0A"
    | "c = CHR 0x0D" | "c = CHR 0x09"
    | "c \<notin> {CHR 0x22, CHR 0x5C, CHR 0x08, CHR 0x0C, CHR 0x0A, CHR 0x0D, CHR 0x09}"
      "(of_char c :: nat) < 32"
    | "c \<notin> {CHR 0x22, CHR 0x5C, CHR 0x08, CHR 0x0C, CHR 0x0A, CHR 0x0D, CHR 0x09}"
      "\<not> (of_char c :: nat) < 32"
    by blast
  then show ?thesis
  proof cases
    case 8
    then show ?thesis
      by (simp add: escape_char_def hex4_escape)
  qed (simp_all add: escape_char_def unescape_def)
qed

lemma parse_chars_quoted:
  "parse_chars (concat (map escape_char s) @ CHR 0x22 # rest) = Some (s, rest)"
  by (induction s) (simp_all add: parse_chars_escape cons_fst_def)

lemma stringify_json_value: "json_value v \<Longrightarrow> ecma_JSON_stringify v = Some (json_text v)"
  by (cases v) (simp_all add: json_text_def)

lemma json_text_simps:
  "json_text JNull = ''null''"
  "json_text (JBool b) = (if b then ''true'' else ''false'')"
  "json_text (JNum q) = num_to_string q"
  "json_text (JStr s) = json_quote s"
  by (simp_all add: json_text_def)

lemma json_text_arr: "json_text (JArr xs) = ''['' @ join_comma (map json_text xs) @ '']''"
  unfolding json_text_def by simp

lemma members_concat:
  "list_all (\<lambda>kv. json_value (snd kv)) kvs \<Longrightarrow>
   concat (map (\<lambda>(k, x). case ecma_JSON_stringify x of None \<Rightarrow> []
                 | Some t \<Rightarrow> [json_quote k @ '':'' @ t]) kvs)
     = map member_text kvs"
  by (induction kvs) (auto simp: member_text_def stringify_json_value)

lemma json_text_obj:
  "json_value (JObj kvs) \<Longrightarrow>
   json_text (JObj kvs) = ''{'' @ join_comma (map member_text kvs) @ ''}''"
  by (simp add: json_text_def members_concat)

lemma skip_ws_Cons: "\<not> is_ws c \<Longrightarrow> skip_ws (c # r) = c # r"
  by (simp add: skip_ws_def)

lemma not_ws [simp]:
  "\<not> is_ws (CHR '','')" "\<not> is_ws (CHR '']'')" "\<not> is_ws (CHR ''}'')" "\<not> is_ws (CHR '':'')"
  "\<not> is_ws (CHR 0x22)" "\<not> is_ws (CHR ''['')" "\<not> is_ws (CHR ''{'')"
  by (simp_all add: is_ws_def)

lemma num_to_string_start:
  "\<exists>c cs. num_to_string (of_int n) = c # cs \<and> (c = CHR ''-'' \<or> is_digit c)"
proof -
  obtain c cs where cs: "nat_digits (nat \<bar>n\<bar>) = c # cs"
    using nat_digits_nonempty [of "nat \<bar>n\<bar>"] by (cases "nat_digits (nat \<bar>n\<bar>)") auto
  then have "is_digit c"
    using nat_digits_all [of "nat \<bar>n\<bar>"] by simp
  with cs show ?thesis
    by (simp add: num_to_string_of_int)
qed

lemma json_text_start:
  assumes "json_value v"
  shows "\<exists>c cs. json_text v = c # cs \<and> value_start c"
proof (cases v)
  case (JNum q)
  with assms have q: "q = of_int \<lfloor>q\<rfloor>" by simp
  obtain c cs where c: "num_to_string (of_int \<lfloor>q\<rfloor>) = c # cs" "c = CHR ''-'' \<or> is_digit c"
    using num_to_string_start by blast
  then have "value_start c"
    by (auto simp: value_start_def is_ws_def is_digit_def)
  with q c(1) JNum show ?thesis
    by (metis json_text_simps(3))
next
  case (JObj kvs)
  with assms show ?thesis
    by (simp add: json_text_obj value_start_def)
next
  case (JArr xs)
  then show ?thesis
    by (simp add: json_text_arr value_start_def)
next
  case (JStr s)
  then show ?thesis
    by (simp add: json_text_simps json_quote_def value_start_def)
next
  case (JBool b)
  then show ?thesis
    by (simp add: json_text_simps value_start_def is_ws_def)
next
  case JNull
  then show ?thesis
    by (simp add: json_text_simps value_start_def is_ws_def)
next
  case JUndefined
  with assms show ?thesis by simp
next
  case (JFun f)
  with assms show ?thesis by simp
qed

lemma parse_value_string:
  "parse_value (Suc n) (json_quote s @ rest) = Some (JStr s, rest)"
  by (simp add: json_quote_def skip_ws_def is_ws_def parse_chars_quoted)

lemma parse_value_number:
  assumes "c = CHR ''-'' \<or> is_digit c"
  shows "parse_value (Suc n) (c # cs) = map_option (\<lambda>(q, t). (JNum q, t)) (parse_number (c # cs))"
proof -
  have "\<not> is_ws c" "c \<noteq> CHR ''[''" "c \<noteq> CHR ''{''" "c \<noteq> CHR 0x22" "c \<noteq> CHR ''t''"
    "c \<noteq> CHR ''f''" "c \<noteq> CHR ''n''"
    using assms by (auto simp: is_digit_def is_ws_def)
  then show ?thesis
    by (simp add: skip_ws_def starts_with_def)
qed

lemma parse_value_num:
  assumes "value_end rest"
  shows "parse_value (Suc n) (num_to_string (of_int k) @ rest) = Some (JNum (of_int k), rest)"
proof -
  obtain c cs where c: "num_to_string (of_int k) = c # cs" "c = CHR ''-'' \<or> is_digit c"
    using num_to_string_start by blast
  have "parse_value (Suc n) (c # cs @ rest)
      = map_option (\<lambda>(q, t). (JNum q, t)) (parse_number (c # cs @ rest))"
    by (rule parse_value_number [OF c(2)])
  moreover have "parse_number (c # cs @ rest) = Some (of_int k, rest)"
    using parse_number_num_to_string [OF assms, of k] c(1) by simp
  ultimately show ?thesis
    using c(1) by simp
qed

lemma value_end_simps [simp]:
  "value_end []" "value_end (CHR '','' # r)" "value_end (CHR '']'' # r)" "value_end (CHR ''}'' # r)"
  by (simp_all add: value_end_def)

lemma parse_elements_texts:
  assumes "xs \<noteq> []"
    and "\<And>x n rest. x \<in> set xs \<Longrightarrow> need x \<le> n \<Longrightarrow> value_end rest \<Longrightarrow>
           parse_value n (json_text x @ rest) = Some (x, rest)"
    and "sum_list (map (\<lambda>x. Suc (need x)) xs) \<le> n"
  shows "parse_elements n (join_comma (map json_text xs) @ CHR '']'' # rest) = Some (xs, rest)"
  using assms
proof (induction xs arbitrary: n rule: list_nonempty_induct)
  case (single x)
  then obtain m where n: "n = Suc m" and m: "need x \<le> m"
    by (cases n) auto
  have "parse_value m (json_text x @ CHR '']'' # rest) = Some (x, CHR '']'' # rest)"
    using single(1) [of x m "CHR '']'' # rest"] m by simp
  then show ?case
    by (simp add: n skip_ws_Cons)
next
  case (cons x xs)
  then obtain m where n: "n = Suc m" and m: "need x \<le> m"
    and ms: "sum_list (map (\<lambda>x. Suc (need x)) xs) \<le> m"
    by (cases n) auto
  obtain y ys where xs: "xs = y # ys"
    using cons(1) by (cases xs) auto
  have "parse_value m (json_text x @ CHR '','' # join_comma (map json_text xs) @ CHR '']'' # rest)
      = Some (x, CHR '','' # join_comma (map json_text xs) @ CHR '']'' # rest)"
    using cons(3) [of x m] m by simp
  moreover have "parse_elements m (join_comma (map json_text xs) @ CHR '']'' # rest) = Some (xs, rest)"
    using cons(2) [OF _ ms] cons(3) by simp
  ultimately show ?case
    by (simp add: n xs skip_ws_Cons cons_fst_def)
qed

lemma put_property_fresh: "k \<notin> fst ` set acc \<Longrightarrow> put_property k v acc = acc @ [(k, v)]"
  by (induction acc) auto

lemma join_comma_Cons: "ts \<noteq> [] \<Longrightarrow> join_comma (t # ts) = t @ CHR '','' # join_comma ts"
  by (cases ts) simp_all

lemma member_text_pair:
  "member_text (k, v) = CHR 0x22 # concat (map escape_char k) @ CHR 0x22 # CHR '':'' # json_text v"
  by (simp add: member_text_def json_quote_def)

lemma parse_members_texts:
  assumes "kvs \<noteq> []"
    and "\<And>kv n rest. kv \<in> set kvs \<Longrightarrow> need (snd kv) \<le> n \<Longrightarrow> value_end rest \<Longrightarrow>
           parse_value n (json_text (snd kv) @ rest) = Some (snd kv, rest)"
    and "sum_list (map (\<lambda>kv. Suc (need (snd kv))) kvs) \<le> n"
    and "distinct (map fst (acc @ kvs))"
  shows "parse_members n acc (join_comma (map member_text kvs) @ CHR ''}'' # rest)
           = Some (acc @ kvs, rest)"
  using assms
proof (induction kvs arbitrary: n acc rule: list_nonempty_induct)
  case (single kv)
  obtain k v where kv: "kv = (k, v)" by (cases kv)
  from single obtain m where n: "n = Suc m" and m: "need v \<le> m"
    by (cases n) (auto simp: kv)
  have p: "parse_value m (json_text v @ CHR ''}'' # rest) = Some (v, CHR ''}'' # rest)"
    using single(1) [of kv m "CHR ''}'' # rest"] m by (simp add: kv)
  have f: "put_property k v acc = acc @ [(k, v)]"
    using single(3) by (intro put_property_fresh) (auto simp: kv)
  show ?case
    by (simp add: n kv member_text_pair skip_ws_Cons parse_chars_quoted p f)
next
  case (cons kv kvs)
  obtain k v where kv: "kv = (k, v)" by (cases kv)
  from cons(4) obtain m where n: "n = Suc m" and m: "need v \<le> m"
    and ms: "sum_list (map (\<lambda>kv. Suc (need (snd kv))) kvs) \<le> m"
    by (cases n) (auto simp: kv)
  obtain y ys where kvs: "kvs = y # ys"
    using cons(1) by (cases kvs) auto
  let ?more = "CHR '','' # join_comma (map member_text kvs) @ CHR ''}'' # rest"
  have p: "parse_value m (json_text v @ ?more) = Some (v, ?more)"
    using cons(3) [of kv m ?more] m by (simp add: kv)
  have f: "put_property k v acc = acc @ [(k, v)]"
    using cons(5) by (intro put_property_fresh) (auto simp: kv)
  have d: "distinct (map fst ((acc @ [(k, v)]) @ kvs))"
    using cons(5) by (simp add: kv)
  have r: "parse_members m (acc @ [(k, v)]) (join_comma (map member_text kvs) @ CHR ''}'' # rest)
      = Some ((acc @ [(k, v)]) @ kvs, rest)"
    using cons(2) [OF _ ms d] cons(3) by simp
  have t: "join_comma (map member_text (kv # kvs))
      = member_text (k, v) @ CHR '','' # join_comma (map member_text kvs)"
    using cons(1) by (simp add: join_comma_Cons kv)
  show ?case
    unfolding t n
    by (simp add: member_text_pair skip_ws_Cons parse_chars_quoted p f r kv)
qed

lemma join_comma_start:
  assumes "ts \<noteq> []" and "\<exists>c cs. hd ts = c # cs \<and> P c"
  shows "\<exists>c cs. join_comma ts = c # cs \<and> P c"
proof -
  obtain t ts' where ts: "ts = t # ts'"
    using assms(1) by (cases ts) auto
  with assms(2) obtain c cs where "t = c # cs" "P c" by auto
  with ts show ?thesis
    by (cases ts') auto
qed

lemma parse_value_array:
  assumes "list_all json_value xs"
    and "\<And>x n rest. x \<in> set xs \<Longrightarrow> need x \<le> n \<Longrightarrow> value_end rest \<Longrightarrow>
           parse_value n (json_text x @ rest) = Some (x, rest)"
    and "sum_list (map (\<lambda>x. Suc (need x)) xs) \<le> m"
  shows "parse_value (Suc m) (json_text (JArr xs) @ rest) = Some (JArr xs, rest)"
proof (cases "xs = []")
  case True
  then show ?thesis
    by (simp add: json_text_arr skip_ws_Cons)
next
  case False
  then have "json_value (hd xs)"
    using assms(1) by (cases xs) auto
  then have "\<exists>c cs. hd (map json_text xs) = c # cs \<and> value_start c"
    using False json_text_start by (simp add: hd_map)
  then obtain c cs where c: "join_comma (map json_text xs) = c # cs" "value_start c"
    using join_comma_start [of "map json_text xs" value_start] False by auto
  have e: "parse_elements m (join_comma (map json_text xs) @ CHR '']'' # rest) = Some (xs, rest)"
    by (rule parse_elements_texts [OF False assms(2) assms(3)])
  have "parse_value (Suc m) (CHR ''['' # (c # cs) @ CHR '']'' # rest)
      = map_option (\<lambda>(xs, t). (JArr xs, t)) (parse_elements m ((c # cs) @ CHR '']'' # rest))"
    using c(2) by (simp add: skip_ws_Cons value_start_def)
  then show ?thesis
    using e by (simp add: json_text_arr c(1))
qed

lemma parse_value_object:
  assumes "json_value (JObj kvs)"
    and "\<And>kv n rest. kv \<in> set kvs \<Longrightarrow> need (snd kv) \<le> n \<Longrightarrow> value_end rest \<Longrightarrow>
           parse_value n (json_text (snd kv) @ rest) = Some (snd kv, rest)"
    and "sum_list (map (\<lambda>kv. Suc (need (snd kv))) kvs) \<le> m"
  shows "parse_value (Suc m) (json_text (JObj kvs) @ rest) = Some (JObj kvs, rest)"
proof (cases "kvs = []")
  case True
  then show ?thesis
    using assms(1) by (simp add: json_text_obj skip_ws_Cons)
next
  case False
  have "\<exists>c cs. hd (map member_text kvs) = c # cs \<and> c = CHR 0x22"
    using False by (cases kvs) (auto simp: member_text_pair)
  then obtain cs where c: "join_comma (map member_text kvs) = CHR 0x22 # cs"
    using join_comma_start [of "map member_text kvs" "\<lambda>c. c = CHR 0x22"] False by auto
  have d: "distinct (map fst ([] @ kvs))"
    using assms(1) by simp
  have e: "parse_members m [] (join_comma (map member_text kvs) @ CHR ''}'' # rest)
      = Some ([] @ kvs, rest)"
    by (rule parse_members_texts [OF False assms(2) assms(3) d])
  have "parse_value (Suc m) (CHR ''{'' # (CHR 0x22 # cs) @ CHR ''}'' # rest)
      = map_option (\<lambda>(kvs, t). (JObj kvs, t))
          (parse_members m [] ((CHR 0x22 # cs) @ CHR ''}'' # rest))"
    by (simp add: skip_ws_Cons)
  then show ?thesis
    using e assms(1) by (simp add: json_text_obj c)
qed

lemma parse_value_json_text:
  "json_value v \<Longrightarrow> need v \<le> n \<Longrightarrow> value_end rest \<Longrightarrow>
     parse_value n (json_text v @ rest) = Some (v, rest)"
proof (induction v arbitrary: n rest)
  case JUndefined
  then show ?case by simp
next
  case JNull
  then show ?case
    by (cases n) (simp_all add: json_text_simps skip_ws_def is_ws_def starts_with_def)
next
  case (JBool b)
  then show ?case
    by (cases n) (simp_all add: json_text_simps skip_ws_def is_ws_def starts_with_def)
next
  case (JNum q)
  then obtain m where "n = Suc m" by (cases n) auto
  moreover from JNum have "q = of_int \<lfloor>q\<rfloor>" by simp
  ultimately show ?case
    using parse_value_num [OF JNum(3), of m "\<lfloor>q\<rfloor>"] by (simp add: json_text_simps)
next
  case (JStr s)
  then show ?case
    using parse_value_string by (cases n) (simp_all add: json_text_simps del: parse_value.simps)
next
  case (JArr xs)
  from JArr(3) obtain m where n: "n = Suc m" and m: "sum_list (map (\<lambda>x. Suc (need x)) xs) \<le> m"
    by (cases n) auto
  have a: "list_all json_value xs"
    using JArr(2) by simp
  have "parse_value (Suc m) (json_text (JArr xs) @ rest) = Some (JArr xs, rest)"
  proof (rule parse_value_array [OF a _ m])
    fix x k r
    assume "x \<in> set xs" "need x \<le> k" "value_end r"
    with a JArr(1) [of x k r] show "parse_value k (json_text x @ r) = Some (x, r)"
      by (simp add: list_all_iff)
  qed
  then show ?case by (simp add: n)
next
  case (JObj kvs)
  from JObj(3) obtain m where n: "n = Suc m"
    and m: "sum_list (map (\<lambda>kv. Suc (need (snd kv))) kvs) \<le> m"
    by (cases n) auto
  have "parse_value (Suc m) (json_text (JObj kvs) @ rest) = Some (JObj kvs, rest)"
  proof (rule parse_value_object [OF JObj(2) _ m])
    fix kv k r
    assume kv: "kv \<in> set kvs" "need (snd kv) \<le> k" "value_end r"
    have "snd kv \<in> Basic_BNFs.snds kv"
      by (cases kv) simp
    moreover have "json_value (snd kv)"
      using JObj(2) kv(1) by (simp add: list_all_iff)
    ultimately show "parse_value k (json_text (snd kv) @ r) = Some (snd kv, r)"
      using kv JObj(1) [of kv "snd kv" k r] by simp
  qed
  then show ?case by (simp add: n)
next
  case (JFun f)
  then show ?case by simp
qed

lemma sum_need_le_join:
  "(\<And>x. x \<in> set xs \<Longrightarrow> f x \<le> length (t x)) \<Longrightarrow>
     sum_list (map (\<lambda>x. Suc (f x)) xs) \<le> Suc (length (join_comma (map t xs)))"
proof (induction xs rule: induct_list012)
  case 1
  then show ?case by simp
next
  case (2 x)
  then show ?case by simp
next
  case (3 x y zs)
  have "f x \<le> length (t x)"
    using 3(3) by simp
  moreover have "sum_list (map (\<lambda>x. Suc (f x)) (y # zs)) \<le> Suc (length (join_comma (map t (y # zs))))"
    using 3(2) 3(3) by simp
  ultimately show ?case by simp
qed

lemma need_le_length: "json_value v \<Longrightarrow> need v \<le> length (json_text v)"
proof (induction v)
  case (JArr xs)
  have "sum_list (map (\<lambda>x. Suc (need x)) xs) \<le> Suc (length (join_comma (map json_text xs)))"
    using JArr by (intro sum_need_le_join) (simp add: list_all_iff)
  then show ?case
    by (simp add: json_text_arr)
next
  case (JObj kvs)
  have "sum_list (map (\<lambda>kv. Suc (need (snd kv))) kvs)
      \<le> Suc (length (join_comma (map member_text kvs)))"
  proof (rule sum_need_le_join)
    fix kv
    assume kv: "kv \<in> set kvs"
    then have "json_value (snd kv)"
      using JObj(2) by (simp add: list_all_iff)
    moreover have "snd kv \<in> Basic_BNFs.snds kv"
      by (cases kv) simp
    ultimately have "need (snd kv) \<le> length (json_text (snd kv))"
      using kv JObj(1) [of kv "snd kv"] by simp
    then show "need (snd kv) \<le> length (member_text kv)"
      by (simp add: member_text_def)
  qed
  with JObj(2) show ?case
    by (simp add: json_text_obj)
next
  case (JNum q)
  then show ?case
    using json_text_start [of "JNum q"] by auto
qed (simp_all add: json_text_simps json_quote_def)

theorem ecma_json_round_trip:
  assumes "json_value v"
  shows "ecma_JSON_stringify v = Some (json_text v) \<and> ecma_JSON_parse (json_text v) = Some v"
proof -
  have "need v \<le> Suc (length (json_text v))"
    using need_le_length [OF assms] by simp
  then have "parse_value (Suc (length (json_text v))) (json_text v @ []) = Some (v, [])"
    using assms by (intro parse_value_json_text) simp_all
  then show ?thesis
    using assms by (simp add: ecma_JSON_parse_def stringify_json_value skip_ws_def)
qed

section \<open>Round trips in the model runtime\<close>

text \<open>
  With the modelled built-ins, a primitive comes back through the schema whenever the
  stored string is not itself JSON text of another value: every boolean, every integer,
  and every string that \<open>JSON.parse\<close> rejects.
\<close>

lemma primitive_round_trip_ecma:
  assumes "v = JBool b \<or> v = JNum (of_int i) \<or> (v = JStr s \<and> ecma_JSON_parse s = None)"
    and "sch v = Some d"
    and "\<not> raises bk (SetItem (getNamespacedKey st key) (ecma_String v))"
    and "\<not> raises bk (GetItem (getNamespacedKey st key))"
  shows "set_value ecma st bk key v
           = Inr (True, bk\<lparr>items := (items bk)(getNamespacedKey st key \<mapsto> ecma_String v)\<rparr>)
    \<and> get ecma st (bk\<lparr>items := (items bk)(getNamespacedKey st key \<mapsto> ecma_String v)\<rparr>)
          key fallback sch = Inr d"
proof -
  have p: "(case ecma_JSON_parse (ecma_String v) of Some p \<Rightarrow> p | None \<Rightarrow> JStr (ecma_String v)) = v"
    using assms(1)
  proof (elim disjE conjE)
    assume v: "v = JBool b"
    have "ecma_JSON_parse (json_text (JBool b)) = Some (JBool b)"
      using ecma_json_round_trip [of "JBool b"] by simp
    then show ?thesis
      by (simp add: v json_text_simps)
  next
    assume v: "v = JNum (of_int i)"
    have "ecma_JSON_parse (json_text (JNum (of_int i))) = Some (JNum (of_int i))"
      using ecma_json_round_trip [of "JNum (of_int i)"] by simp
    then show ?thesis
      by (simp add: v json_text_simps)
  next
    assume "v = JStr s" "ecma_JSON_parse s = None"
    then show ?thesis by simp
  qed
  have c: "(if isValidJson ecma (ecma_String v) then the (JSON_parse ecma (ecma_String v))
             else JStr (ecma_String v)) = v"
    using p by (simp add: isValidJson_def ecma_def split: option.splits)
  have t: "typeof v = ''string'' \<or> typeof v = ''number'' \<or> typeof v = ''boolean''"
    using assms(1) by auto
  have s: "setFn ecma st key v = (getNamespacedKey st key, Some (ecma_String v))"
    using t by (simp add: setFn_def ecma_def)
  have "set_value ecma st bk key v
      = Inr (True, bk\<lparr>items := (items bk)(getNamespacedKey st key \<mapsto> ecma_String v)\<rparr>)"
    using assms(3) by (simp add: set_value_def s SecureStore_setItem_def)
  moreover have "get ecma st (bk\<lparr>items := (items bk)(getNamespacedKey st key \<mapsto> ecma_String v)\<rparr>)
      key fallback sch = Inr d"
    using assms(2,4) by (simp add: get_def SecureStore_getItem_def c)
  ultimately show ?thesis by simp
qed

text \<open>
  With the modelled built-ins, every structured value that JSON represents comes back
  through a schema that accepts it.
\<close>

lemma structured_round_trip_ecma:
  assumes "json_value v"
    and "typeof v \<noteq> ''string''" and "typeof v \<noteq> ''number''" and "typeof v \<noteq> ''boolean''"
    and "sch v = Some d"
    and "\<not> raises bk (SetItem (getNamespacedKey st key) (json_text v))"
    and "\<not> raises bk (GetItem (getNamespacedKey st key))"
  shows "set_value ecma st bk key v
           = Inr (True, bk\<lparr>items := (items bk)(getNamespacedKey st key \<mapsto> json_text v)\<rparr>)
    \<and> get ecma st (bk\<lparr>items := (items bk)(getNamespacedKey st key \<mapsto> json_text v)\<rparr>)
          key fallback sch = Inr d"
  using assms ecma_json_round_trip [OF assms(1)]
  by (simp add: set_value_def setFn_def get_def SecureStore_setItem_def SecureStore_getItem_def
      isValidJson_def ecma_def)

section \<open>Reading: validated value or fallback\<close>

text \<open>
  C1. \<open>get\<close> (and \<open>getAsync\<close>, which is the same function of its arguments) reads the
  namespaced key. When the key is absent the result is the fallback. When it is present the
  candidate is the parsed value if \<open>JSON.parse\<close> accepts the stored string and the raw
  string otherwise; the result is the schema's data for the candidate when validation
  succeeds and the fallback when it fails. The only error \<open>get\<close> can surface is one the
  backend's read raises: a failed validation is never an error.
\<close>

theorem get_validated_or_fallback:
  "get rt st bk key fallback sch =
     (if raises bk (GetItem (getNamespacedKey st key))
      then Inl (BackendFailure (GetItem (getNamespacedKey st key)))
      else Inr (case items bk (getNamespacedKey st key) of
                  None \<Rightarrow> fallback
                | Some item \<Rightarrow>
                    (case sch (case JSON_parse rt item of Some p \<Rightarrow> p | None \<Rightarrow> JStr item) of
                       Some d \<Rightarrow> d
                     | None \<Rightarrow> fallback)))
   \<and> getAsync rt st bk key fallback sch = get rt st bk key fallback sch"
  by (simp add: get_def getAsync_def SecureStore_getItemAsync_def SecureStore_getItem_def
      isValidJson_def split: option.splits)

theorem get_validated_or_fallback_witness:
  "get ecma \<lparr>namespace = Some ''a''\<rparr> empty_backend ''k'' (JNum 7) z_number = Inr (JNum 7)
   \<and> get ecma \<lparr>namespace = Some ''a''\<rparr> (empty_backend\<lparr>items := [''a:k'' \<mapsto> ''12'']\<rparr>) ''k''
        (JNum 7) z_number = Inr (JNum 12)
   \<and> get ecma \<lparr>namespace = Some ''a''\<rparr> (empty_backend\<lparr>items := [''a:k'' \<mapsto> ''hello'']\<rparr>) ''k''
        (JStr ''fb'') z_string = Inr (JStr ''hello'')
   \<and> get ecma \<lparr>namespace = Some ''a''\<rparr> (empty_backend\<lparr>items := [''a:k'' \<mapsto> ''hello'']\<rparr>) ''k''
        (JNum 7) z_number = Inr (JNum 7)"
proof -
  have p: "ecma_JSON_parse ''12'' = Some (JNum 12)" "ecma_JSON_parse ''hello'' = None"
    by code_simp+
  have k: "getNamespacedKey \<lparr>namespace = Some ''a''\<rparr> ''k'' = ''a:k''"
    by (simp add: getNamespacedKey_Some)
  show ?thesis
    using get_validated_or_fallback [of ecma "\<lparr>namespace = Some ''a''\<rparr>" empty_backend "''k''"
        "JNum 7" z_number]
      get_validated_or_fallback [of ecma "\<lparr>namespace = Some ''a''\<rparr>"
        "empty_backend\<lparr>items := [''a:k'' \<mapsto> ''12'']\<rparr>" "''k''" "JNum 7" z_number]
      get_validated_or_fallback [of ecma "\<lparr>namespace = Some ''a''\<rparr>"
        "empty_backend\<lparr>items := [''a:k'' \<mapsto> ''hello'']\<rparr>" "''k''" "JStr ''fb''" z_string]
      get_validated_or_fallback [of ecma "\<lparr>namespace = Some ''a''\<rparr>"
        "empty_backend\<lparr>items := [''a:k'' \<mapsto> ''hello'']\<rparr>" "''k''" "JNum 7" z_number]
    by (simp add: k p ecma_def empty_backend_def z_number_def z_string_def)
qed

section \<open>Primitive values\<close>

text \<open>
  C2. A primitive is stored as \<open>String(value)\<close>, but every stored string that happens to be
  JSON text is parsed on the way back. The string \<open>true\<close>, stored under \<open>k\<close> and read with
  the string schema (which accepts it), comes back as the fallback: the candidate handed
  to the schema is the boolean, not the string.
\<close>

theorem json_like_string_comes_back_as_fallback:
  "z_string (JStr ''true'') = Some (JStr ''true'')
   \<and> set_value ecma \<lparr>namespace = None\<rparr> empty_backend ''k'' (JStr ''true'')
       = Inr (True, empty_backend\<lparr>items := [''k'' \<mapsto> ''true'']\<rparr>)
   \<and> get ecma \<lparr>namespace = None\<rparr> (empty_backend\<lparr>items := [''k'' \<mapsto> ''true'']\<rparr>) ''k''
         (JStr ''fallback'') z_string
       = Inr (JStr ''fallback'')"
proof -
  have p: "ecma_JSON_parse ''true'' = Some (JBool True)"
    by code_simp
  show ?thesis
    by (simp add: set_value_def setFn_def get_def SecureStore_setItem_def SecureStore_getItem_def
        getNamespacedKey_None ecma_def empty_backend_def isValidJson_def p z_string_def)
qed

section \<open>The biometric probe\<close>

text \<open>
  C3. \<open>canUseBiometricAuthentication\<close> returns the backend module's member itself, a
  function, whatever the device: it is not the boolean the backend's check answers, and it
  is truthy also on a device without biometric authentication.
\<close>

theorem canUseBiometricAuthentication_returns_the_function:
  "canUseBiometricAuthentication st bk = JFun ''canUseBiometricAuthentication''
   \<and> canUseBiometricAuthentication st bk \<noteq> JBool (SecureStore_canUseBiometricAuthentication_call bk)
   \<and> truthy (canUseBiometricAuthentication st (bk\<lparr>biometric := False\<rparr>))
   \<and> SecureStore_canUseBiometricAuthentication_call (bk\<lparr>biometric := False\<rparr>) = False"
  by (simp add: canUseBiometricAuthentication_def SecureStore_canUseBiometricAuthentication_def
      SecureStore_canUseBiometricAuthentication_call_def)

section \<open>Namespaces\<close>

text \<open>
  C4. \<open>setNamespace\<close> returns true exactly when its argument is a string, and then the
  namespace is that string; for any other argument it returns false and the store, hence
  what \<open>getNamespace\<close> returns, is unchanged.
\<close>

theorem setNamespace_succeeds_iff_string:
  "fst (setNamespace st v) = (typeof v = ''string'')
   \<and> (\<forall>s. v = JStr s \<longrightarrow> getNamespace (snd (setNamespace st v)) = Some s)
   \<and> (typeof v \<noteq> ''string'' \<longrightarrow> setNamespace st v = (False, st)
        \<and> getNamespace (snd (setNamespace st v)) = getNamespace st)"
  by (cases v) (simp_all add: getNamespace_def)

theorem setNamespace_succeeds_iff_string_witness:
  "fst (setNamespace \<lparr>namespace = Some ''app''\<rparr> (JNum 123)) = False
   \<and> getNamespace (snd (setNamespace \<lparr>namespace = Some ''app''\<rparr> (JNum 123))) = Some ''app''
   \<and> typeof (JNum 123) \<noteq> ''string''
   \<and> fst (setNamespace \<lparr>namespace = Some ''app''\<rparr> (JStr ''user'')) = True
   \<and> getNamespace (snd (setNamespace \<lparr>namespace = Some ''app''\<rparr> (JStr ''user''))) = Some ''user''"
  using setNamespace_succeeds_iff_string [of "\<lparr>namespace = Some ''app''\<rparr>" "JNum 123"]
    setNamespace_succeeds_iff_string [of "\<lparr>namespace = Some ''app''\<rparr>" "JStr ''user''"]
  by (simp add: getNamespace_def)

text \<open>
  C6. Two stores with distinct non-empty namespaces (such as \<open>a\<close> and \<open>b\<close>) map the same
  logical key to distinct backend keys. A write through the first store creates the first
  store's entry and leaves the second store's backend key as it was, so \<open>existsAsync\<close> on
  the second store answers as before the write: false when the key was never written
  through it.
\<close>

theorem distinct_namespaces_do_not_collide:
  assumes "a \<noteq> []" and "b \<noteq> []" and "a \<noteq> b"
    and "set_value rt (new_TypeSafeStore (Some a)) bk key v = Inr (ok, bk')"
  shows "getNamespacedKey (new_TypeSafeStore (Some a)) key
           \<noteq> getNamespacedKey (new_TypeSafeStore (Some b)) key
    \<and> items bk' (getNamespacedKey (new_TypeSafeStore (Some a)) key) \<noteq> None
    \<and> items bk' (getNamespacedKey (new_TypeSafeStore (Some b)) key)
        = items bk (getNamespacedKey (new_TypeSafeStore (Some b)) key)
    \<and> existsAsync (new_TypeSafeStore (Some b)) bk' key
        = existsAsync (new_TypeSafeStore (Some b)) bk key
    \<and> (items bk (getNamespacedKey (new_TypeSafeStore (Some b)) key) = None
          \<and> \<not> raises bk (GetItem (getNamespacedKey (new_TypeSafeStore (Some b)) key))
        \<longrightarrow> existsAsync (new_TypeSafeStore (Some b)) bk' key = Inr False)"
proof -
  let ?A = "new_TypeSafeStore (Some a)" and ?B = "new_TypeSafeStore (Some b)"
  have ne: "getNamespacedKey ?A key \<noteq> getNamespacedKey ?B key"
    using assms(1-3) by (simp add: new_TypeSafeStore_Some getNamespacedKey_Some)
  obtain s where bk': "bk' = bk\<lparr>items := (items bk)(getNamespacedKey ?A key \<mapsto> s)\<rparr>"
    using set_value_items [OF assms(4)] by auto
  from ne bk' show ?thesis
    by (auto simp: existsAsync_items)
qed

theorem distinct_namespaces_do_not_collide_witness:
  "set_value ecma (new_TypeSafeStore (Some ''a'')) empty_backend ''k'' (JStr ''v'')
      = Inr (True, empty_backend\<lparr>items := [''a:k'' \<mapsto> ''v'']\<rparr>)
   \<and> getNamespacedKey (new_TypeSafeStore (Some ''a'')) ''k'' = ''a:k''
   \<and> getNamespacedKey (new_TypeSafeStore (Some ''b'')) ''k'' = ''b:k''
   \<and> existsAsync (new_TypeSafeStore (Some ''a'')) (empty_backend\<lparr>items := [''a:k'' \<mapsto> ''v'']\<rparr>) ''k''
       = Inr True
   \<and> existsAsync (new_TypeSafeStore (Some ''b'')) (empty_backend\<lparr>items := [''a:k'' \<mapsto> ''v'']\<rparr>) ''k''
       = Inr False"
proof -
  let ?A = "new_TypeSafeStore (Some ''a'')" and ?B = "new_TypeSafeStore (Some ''b'')"
  let ?bk' = "empty_backend\<lparr>items := [''a:k'' \<mapsto> ''v'']\<rparr>"
  have ka: "getNamespacedKey ?A ''k'' = ''a:k''" and kb: "getNamespacedKey ?B ''k'' = ''b:k''"
    by (simp_all add: new_TypeSafeStore_Some getNamespacedKey_Some)
  have s: "set_value ecma ?A empty_backend ''k'' (JStr ''v'') = Inr (True, ?bk')"
    by (simp add: set_value_def setFn_def SecureStore_setItem_def ka ecma_def empty_backend_def)
  have "items empty_backend (getNamespacedKey ?B ''k'') = None"
    "\<not> raises empty_backend (GetItem (getNamespacedKey ?B ''k''))"
    by (simp_all add: empty_backend_def)
  with distinct_namespaces_do_not_collide [of "''a''" "''b''", OF _ _ _ s]
  have b: "existsAsync ?B ?bk' ''k'' = Inr False"
    by auto
  have a: "existsAsync ?A ?bk' ''k'' = Inr True"
    by (simp add: existsAsync_items ka empty_backend_def)
  show ?thesis using s ka kb a b by simp
qed

text \<open>
  C9. \<open>setNamespace\<close> accepts the empty string, yet with the empty namespace every key
  is the bare logical key, as in a store without a namespace; constructing a store with
  the empty string leaves the namespace unset. Such a store therefore reads, writes,
  probes and removes exactly the entries of the default store.
\<close>

theorem empty_namespace_is_no_namespace:
  "fst (setNamespace st (JStr '''')) = True
   \<and> getNamespace (snd (setNamespace st (JStr ''''))) = Some ''''
   \<and> getNamespacedKey (snd (setNamespace st (JStr ''''))) key = key
   \<and> getNamespacedKey (defaultStore) key = key
   \<and> new_TypeSafeStore (Some '''') = defaultStore
   \<and> getNamespace (new_TypeSafeStore (Some '''')) = None
   \<and> get rt (snd (setNamespace st (JStr ''''))) bk key fb sch
       = get rt (defaultStore) bk key fb sch
   \<and> set_value rt (snd (setNamespace st (JStr ''''))) bk key v
       = set_value rt (defaultStore) bk key v
   \<and> existsAsync (snd (setNamespace st (JStr ''''))) bk key
       = existsAsync (defaultStore) bk key
   \<and> removeAsync (snd (setNamespace st (JStr ''''))) bk key opts
       = removeAsync (defaultStore) bk key opts"
  by (simp add: getNamespace_def getNamespacedKey_def new_TypeSafeStore_def truthy_string_def
      defaultStore_def
      get_def set_value_def setFn_def existsAsync_def removeAsync_def)

text \<open>
  C10. The map from namespace and logical key to backend key is not injective: namespace
  \<open>a\<close> with key \<open>b:k\<close> and namespace \<open>a:b\<close> with key \<open>k\<close> both give \<open>a:b:k\<close>, so
  reading, writing, probing and removing through the two stores act on one entry.
\<close>

theorem namespaced_key_not_injective:
  "getNamespacedKey (new_TypeSafeStore (Some ''a'')) ''b:k'' = ''a:b:k''
   \<and> getNamespacedKey (new_TypeSafeStore (Some ''a:b'')) ''k'' = ''a:b:k''
   \<and> \<not> inj (\<lambda>(ns, key). getNamespacedKey (new_TypeSafeStore (Some ns)) key)
   \<and> get rt (new_TypeSafeStore (Some ''a'')) bk ''b:k'' fb sch
       = get rt (new_TypeSafeStore (Some ''a:b'')) bk ''k'' fb sch
   \<and> set_value rt (new_TypeSafeStore (Some ''a'')) bk ''b:k'' v
       = set_value rt (new_TypeSafeStore (Some ''a:b'')) bk ''k'' v
   \<and> exists (new_TypeSafeStore (Some ''a'')) bk ''b:k''
       = exists (new_TypeSafeStore (Some ''a:b'')) bk ''k''
   \<and> removeAsync (new_TypeSafeStore (Some ''a'')) bk ''b:k'' opts
       = removeAsync (new_TypeSafeStore (Some ''a:b'')) bk ''k'' opts"
proof -
  have k1: "getNamespacedKey (new_TypeSafeStore (Some ''a'')) ''b:k'' = ''a:b:k''"
    by (simp add: getNamespacedKey_def new_TypeSafeStore_def truthy_string_def)
  have k2: "getNamespacedKey (new_TypeSafeStore (Some ''a:b'')) ''k'' = ''a:b:k''"
    by (simp add: getNamespacedKey_def new_TypeSafeStore_def truthy_string_def)
  have ni: "\<not> inj (\<lambda>(ns, key). getNamespacedKey (new_TypeSafeStore (Some ns)) key)"
  proof
    assume "inj (\<lambda>(ns, key). getNamespacedKey (new_TypeSafeStore (Some ns)) key)"
    then have "(''a'', ''b:k'') = (''a:b'', ''k'')"
      using k1 k2 by (auto dest!: injD [where x = "(''a'', ''b:k'')" and y = "(''a:b'', ''k'')"])
    then show False by simp
  qed
  show ?thesis
    using k1 k2 ni
    by (simp add: get_def set_value_def setFn_def exists_def removeAsync_def)
qed

section \<open>Structured values\<close>

text \<open>
  C5. A structured value is written as \<open>JSON.stringify\<close> prints it and read back as
  \<open>JSON.parse\<close> reads that text. When the text parses back to the value itself, the
  schema accepts the value and both backend calls complete, \<open>set\<close> followed by \<open>get\<close>
  (or \<open>getAsync\<close>) returns the data the schema validates the value to, which is the value
  for a schema that hands its input back unchanged.
\<close>

theorem structured_round_trip:
  assumes "typeof v \<noteq> ''string''" and "typeof v \<noteq> ''number''" and "typeof v \<noteq> ''boolean''"
    and "JSON_stringify rt v = Some s"
    and "JSON_parse rt s = Some v"
    and "sch v = Some d"
    and "\<not> raises bk (SetItem (getNamespacedKey st key) s)"
    and "\<not> raises bk (GetItem (getNamespacedKey st key))"
  shows "set_value rt st bk key v
           = Inr (True, bk\<lparr>items := (items bk)(getNamespacedKey st key \<mapsto> s)\<rparr>)
    \<and> get rt st (bk\<lparr>items := (items bk)(getNamespacedKey st key \<mapsto> s)\<rparr>) key fallback sch = Inr d
    \<and> getAsync rt st (bk\<lparr>items := (items bk)(getNamespacedKey st key \<mapsto> s)\<rparr>) key fallback sch
        = Inr d"
  using assms
  by (simp add: set_value_def setFn_def get_def getAsync_def SecureStore_setItem_def
      SecureStore_getItem_def SecureStore_getItemAsync_def isValidJson_def)

theorem structured_round_trip_witness:
  "set_value ecma \<lparr>namespace = Some ''app''\<rparr> empty_backend ''user''
       (JObj [(''name'', JStr ''Ann''), (''tags'', JArr [JNum 1, JNull, JBool True])])
     = Inr (True, empty_backend\<lparr>items :=
              [''app:user'' \<mapsto> the (ecma_JSON_stringify
                 (JObj [(''name'', JStr ''Ann''), (''tags'', JArr [JNum 1, JNull, JBool True])]))]\<rparr>)
   \<and> get ecma \<lparr>namespace = Some ''app''\<rparr>
        (empty_backend\<lparr>items :=
              [''app:user'' \<mapsto> the (ecma_JSON_stringify
                 (JObj [(''name'', JStr ''Ann''), (''tags'', JArr [JNum 1, JNull, JBool True])]))]\<rparr>)
        ''user'' JNull z_any
     = Inr (JObj [(''name'', JStr ''Ann''), (''tags'', JArr [JNum 1, JNull, JBool True])])"
proof -
  let ?v = "JObj [(''name'', JStr ''Ann''), (''tags'', JArr [JNum 1, JNull, JBool True])]"
  obtain s where s: "ecma_JSON_stringify ?v = Some s"
    by simp
  have p: "ecma_JSON_parse (the (ecma_JSON_stringify ?v)) = Some ?v"
    by code_simp
  have k: "getNamespacedKey \<lparr>namespace = Some ''app''\<rparr> ''user'' = ''app:user''"
    by (simp add: getNamespacedKey_Some)
  have h: "JSON_stringify ecma ?v = Some s" "JSON_parse ecma s = Some ?v" "z_any ?v = Some ?v"
    "\<not> raises empty_backend (SetItem (getNamespacedKey \<lparr>namespace = Some ''app''\<rparr> ''user'') s)"
    "\<not> raises empty_backend (GetItem (getNamespacedKey \<lparr>namespace = Some ''app''\<rparr> ''user''))"
    using s p by (simp_all add: ecma_def z_any_def empty_backend_def)
  have t: "typeof ?v \<noteq> ''string''" "typeof ?v \<noteq> ''number''" "typeof ?v \<noteq> ''boolean''"
    by simp_all
  from structured_round_trip [where rt = ecma and v = ?v and s = s and sch = z_any and d = ?v
      and bk = empty_backend and st = "\<lparr>namespace = Some ''app''\<rparr>" and key = "''user''"
      and fallback = JNull, OF t h] s k
  show ?thesis
    by (simp add: empty_backend_def)
qed

text \<open>
  The claim as worded fails for a structured value that JSON cannot represent: the array
  holding \<open>undefined\<close> is accepted by \<open>z.any()\<close>, is written as \<open>[null]\<close>, and comes
  back as the array holding \<open>null\<close>.
\<close>

theorem array_of_undefined_counterexample:
  "typeof (JArr [JUndefined]) = ''object''
   \<and> z_any (JArr [JUndefined]) = Some (JArr [JUndefined])
   \<and> set_value ecma \<lparr>namespace = None\<rparr> empty_backend ''k'' (JArr [JUndefined])
       = Inr (True, empty_backend\<lparr>items := [''k'' \<mapsto> ''[null]'']\<rparr>)
   \<and> get ecma \<lparr>namespace = None\<rparr> (empty_backend\<lparr>items := [''k'' \<mapsto> ''[null]'']\<rparr>) ''k''
         (JStr ''fallback'') z_any
       = Inr (JArr [JNull])
   \<and> JArr [JNull] \<noteq> JArr [JUndefined]"
proof -
  have p: "ecma_JSON_parse ''[null]'' = Some (JArr [JNull])"
    by code_simp
  have q: "ecma_JSON_stringify (JArr [JUndefined]) = Some ''[null]''"
    by code_simp
  show ?thesis
    by (simp add: set_value_def setFn_def get_def SecureStore_setItem_def SecureStore_getItem_def
        getNamespacedKey_None ecma_def empty_backend_def isValidJson_def p q z_any_def)
qed

section \<open>Expiration\<close>

lemma fire_raises [simp]: "raises (fire bk t) = raises bk"
  by (simp add: fire_def SecureStore_deleteItemAsync_def)

lemma fire_items:
  "items (fire bk t) k
     = (if k = target t \<and> \<not> raises bk (DeleteItem k None) then None else items bk k)"
  by (auto simp: fire_def SecureStore_deleteItemAsync_def)

lemma foldl_fire_raises [simp]: "raises (foldl fire bk ts) = raises bk"
  by (induction ts arbitrary: bk) simp_all

lemma foldl_fire_items:
  "items (foldl fire bk ts) k
     = (if k \<in> target ` set ts \<and> \<not> raises bk (DeleteItem k None) then None else items bk k)"
  by (induction ts arbitrary: bk) (auto simp: fire_items)

lemma advance_items:
  "items (store (advance d w)) k
     = (if (\<exists>t \<in> set (timers w). due t \<le> now w + d \<and> target t = k)
           \<and> \<not> raises (store w) (DeleteItem k None)
        then None else items (store w) k)"
  by (auto simp: advance_def Let_def foldl_fire_items)

lemma advance_raises [simp]: "raises (store (advance d w)) = raises (store w)"
  by (simp add: advance_def Let_def)

lemma setWithExpiration_Inr:
  assumes "setWithExpiration rt st w key v ttl = Inr w'"
  shows "\<exists>s. snd (setFn rt st key v) = Some s
      \<and> \<not> raises (store w) (SetItem (getNamespacedKey st key) s)
      \<and> w' = w\<lparr>store := (store w)\<lparr>items := (items (store w))(getNamespacedKey st key \<mapsto> s)\<rparr>,
               timers := timers w @ [Timer (now w + nat ttl) (getNamespacedKey st key)]\<rparr>"
  using assms
  by (auto simp: setWithExpiration_def setTimeout_def SecureStore_setItemAsync_def
      SecureStore_setItem_def setFn_def Let_def split: option.splits if_splits)

text \<open>
  C7. When \<open>setWithExpiration\<close> returns, the namespaced key holds the serialized value and
  one timer for that key, due \<open>ttl\<close> milliseconds from now, has been added; \<open>existsAsync\<close>
  is true at once. Once at least \<open>ttl\<close> milliseconds have passed and the timer's deletion
  has run (the backend not refusing it), \<open>existsAsync\<close> is false and the timer is gone.
  Before the deadline the entry is still there (no earlier timer aiming at the key), and
  without the timer it stays however much time passes: reading never looks at the clock.
\<close>

theorem setWithExpiration_schedules_deletion:
  assumes "setWithExpiration rt st w key v ttl = Inr w'"
    and "\<not> raises (store w) (GetItem (getNamespacedKey st key))"
  shows "items (store w') (getNamespacedKey st key) = snd (setFn rt st key v)
    \<and> snd (setFn rt st key v) \<noteq> None
    \<and> timers w' = timers w @ [Timer (now w + nat ttl) (getNamespacedKey st key)]
    \<and> now w' = now w
    \<and> existsAsync st (store w') key = Inr True
    \<and> (\<forall>d. nat ttl \<le> d \<and> \<not> raises (store w) (DeleteItem (getNamespacedKey st key) None)
          \<longrightarrow> existsAsync st (store (advance d w')) key = Inr False
              \<and> Timer (now w + nat ttl) (getNamespacedKey st key) \<notin> set (timers (advance d w')))
    \<and> (\<forall>d. d < nat ttl \<and> (\<forall>t \<in> set (timers w). target t \<noteq> getNamespacedKey st key)
          \<longrightarrow> existsAsync st (store (advance d w')) key = Inr True)
    \<and> (\<forall>d. existsAsync st (store (advance d (w'\<lparr>timers := []\<rparr>))) key = Inr True)"
proof -
  let ?k = "getNamespacedKey st key"
  obtain s where s: "snd (setFn rt st key v) = Some s"
    and w': "w' = w\<lparr>store := (store w)\<lparr>items := (items (store w))(?k \<mapsto> s)\<rparr>,
               timers := timers w @ [Timer (now w + nat ttl) ?k]\<rparr>"
    using setWithExpiration_Inr [OF assms(1)] by blast
  show ?thesis
    using assms(2) s
    by (auto simp: w' existsAsync_items advance_items) (auto simp: advance_def Let_def)
qed

theorem setWithExpiration_schedules_deletion_witness:
  "setWithExpiration ecma \<lparr>namespace = Some ''a''\<rparr>
       \<lparr>store = empty_backend, timers = [], now = 1000\<rparr> ''k'' (JStr ''v'') 50
     = Inr \<lparr>store = empty_backend\<lparr>items := [''a:k'' \<mapsto> ''v'']\<rparr>,
            timers = [Timer 1050 ''a:k''], now = 1000\<rparr>
   \<and> existsAsync \<lparr>namespace = Some ''a''\<rparr> (empty_backend\<lparr>items := [''a:k'' \<mapsto> ''v'']\<rparr>) ''k''
       = Inr True
   \<and> existsAsync \<lparr>namespace = Some ''a''\<rparr>
        (store (advance 49 \<lparr>store = empty_backend\<lparr>items := [''a:k'' \<mapsto> ''v'']\<rparr>,
            timers = [Timer 1050 ''a:k''], now = 1000\<rparr>)) ''k''
       = Inr True
   \<and> existsAsync \<lparr>namespace = Some ''a''\<rparr>
        (store (advance 50 \<lparr>store = empty_backend\<lparr>items := [''a:k'' \<mapsto> ''v'']\<rparr>,
            timers = [Timer 1050 ''a:k''], now = 1000\<rparr>)) ''k''
       = Inr False"
proof -
  let ?st = "\<lparr>namespace = Some ''a''\<rparr>"
  let ?w = "\<lparr>store = empty_backend, timers = [], now = 1000\<rparr>"
  let ?w' = "\<lparr>store = empty_backend\<lparr>items := [''a:k'' \<mapsto> ''v'']\<rparr>,
            timers = [Timer 1050 ''a:k''], now = 1000\<rparr>"
  have k: "getNamespacedKey ?st ''k'' = ''a:k''"
    by (simp add: getNamespacedKey_Some)
  have e: "setWithExpiration ecma ?st ?w ''k'' (JStr ''v'') 50 = Inr ?w'"
    by (simp add: setWithExpiration_def setTimeout_def setFn_def k SecureStore_setItemAsync_def
        SecureStore_setItem_def ecma_def empty_backend_def)
  have g: "\<not> raises (store ?w) (GetItem (getNamespacedKey ?st ''k''))"
    by (simp add: empty_backend_def)
  note t = setWithExpiration_schedules_deletion [OF e g]
  have d: "\<not> raises (store ?w) (DeleteItem (getNamespacedKey ?st ''k'') None)"
    by (simp add: empty_backend_def)
  have n: "nat 50 \<le> (50::nat)" "(49::nat) < nat 50"
    "\<forall>t \<in> set (timers ?w). target t \<noteq> getNamespacedKey ?st ''k''"
    by simp_all
  have a: "existsAsync ?st (store ?w') ''k'' = Inr True"
    using t by blast
  have b: "existsAsync ?st (store (advance 50 ?w')) ''k'' = Inr False"
    using t d n by blast
  have c: "existsAsync ?st (store (advance 49 ?w')) ''k'' = Inr True"
    using t n by blast
  show ?thesis using e a b c by simp
qed

section \<open>Removal\<close>

text \<open>
  C8. \<open>removeAsync\<close> returns true exactly when the backend's delete call on the namespaced
  key does not raise, and then the key is gone; when the call raises, the result is false,
  nothing is propagated and the backend is as before. Removing a key that is not there is
  such a call: it yields true whenever the backend does not raise on it.
\<close>

theorem removeAsync_reports_backend_outcome:
  "fst (removeAsync st bk key options)
      = (\<not> raises bk (DeleteItem (getNamespacedKey st key) options))
   \<and> (\<not> raises bk (DeleteItem (getNamespacedKey st key) options) \<longrightarrow>
        removeAsync st bk key options
          = (True, bk\<lparr>items := (items bk)(getNamespacedKey st key := None)\<rparr>)
        \<and> items (snd (removeAsync st bk key options)) (getNamespacedKey st key) = None)
   \<and> (raises bk (DeleteItem (getNamespacedKey st key) options) \<longrightarrow>
        removeAsync st bk key options = (False, bk))"
  by (simp add: removeAsync_def SecureStore_deleteItemAsync_def Let_def)

theorem removeAsync_reports_backend_outcome_witness:
  "removeAsync \<lparr>namespace = Some ''a''\<rparr> empty_backend ''missing'' None = (True, empty_backend)
   \<and> items empty_backend ''a:missing'' = None
   \<and> removeAsync \<lparr>namespace = Some ''a''\<rparr> (empty_backend\<lparr>raises := (\<lambda>c. True)\<rparr>) ''missing'' None
       = (False, empty_backend\<lparr>raises := (\<lambda>c. True)\<rparr>)"
  using removeAsync_reports_backend_outcome
      [of "\<lparr>namespace = Some ''a''\<rparr>" empty_backend "''missing''" None]
    removeAsync_reports_backend_outcome
      [of "\<lparr>namespace = Some ''a''\<rparr>" "empty_backend\<lparr>raises := (\<lambda>c. True)\<rparr>" "''missing''" None]
  by (simp add: empty_backend_def getNamespacedKey_Some)

end
